theory Spec2Isabelle
  imports Complex_Main "HOL-Library.Sublist"
begin

unbundle bit_operations_syntax

section \<open>Python strings and character classes\<close>

text \<open>
  A Python \<^verbatim>\<open>str\<close> is a sequence of Unicode code points, so a string is a list of
  natural numbers and \<open>length\<close> counts code points as \<^verbatim>\<open>len\<close> does. The tables below
  are those of CPython 3.11 (Unicode 14.0.0): \<^verbatim>\<open>str.isspace\<close> and the regular
  expression class \<^verbatim>\<open>\s\<close> share one table, \<^verbatim>\<open>\d\<close> is \<^verbatim>\<open>str.isdecimal\<close>
  (general category Nd), and \<^verbatim>\<open>str.isdigit\<close> adds the characters of numeric type
  Digit (superscript and circled digits among them).
\<close>

type_synonym codepoint = nat
type_synonym pystr = "codepoint list"

definition asc :: "string \<Rightarrow> pystr" where
  "asc s = map of_char s"

definition in_ranges :: "(nat \<times> nat) list \<Rightarrow> nat \<Rightarrow> bool" where
  "in_ranges rs c = list_ex (\<lambda>(lo, hi). lo \<le> c \<and> c \<le> hi) rs"

definition whitespace_ranges :: "(nat \<times> nat) list" where
  "whitespace_ranges = [
   (9, 13), (28, 32), (133, 133), (160, 160), (5760, 5760), (8192, 8202), (8232, 8233),
   (8239, 8239), (8287, 8287), (12288, 12288)]"

definition isspace :: "codepoint \<Rightarrow> bool" where
  "isspace c = in_ranges whitespace_ranges c"

definition decimal_ranges :: "(nat \<times> nat) list" where
  "decimal_ranges = [
   (48, 57), (1632, 1641), (1776, 1785), (1984, 1993), (2406, 2415), (2534, 2543), (2662,
   2671), (2790, 2799), (2918, 2927), (3046, 3055), (3174, 3183), (3302, 3311), (3430,
   3439), (3558, 3567), (3664, 3673), (3792, 3801), (3872, 3881), (4160, 4169), (4240,
   4249), (6112, 6121), (6160, 6169), (6470, 6479), (6608, 6617), (6784, 6793), (6800,
   6809), (6992, 7001), (7088, 7097), (7232, 7241), (7248, 7257), (42528, 42537), (43216,
   43225), (43264, 43273), (43472, 43481), (43504, 43513), (43600, 43609), (44016, 44025),
   (65296, 65305), (66720, 66729), (68912, 68921), (69734, 69743), (69872, 69881), (69942,
   69951), (70096, 70105), (70384, 70393), (70736, 70745), (70864, 70873), (71248, 71257),
   (71360, 71369), (71472, 71481), (71904, 71913), (72016, 72025), (72784, 72793), (73040,
   73049), (73120, 73129), (92768, 92777), (92864, 92873), (93008, 93017), (120782, 120831),
   (123200, 123209), (123632, 123641), (125264, 125273), (130032, 130041)]"

definition isdecimal :: "codepoint \<Rightarrow> bool" where
  "isdecimal c = in_ranges decimal_ranges c"

definition digit_ranges :: "(nat \<times> nat) list" where
  "digit_ranges = [
   (48, 57), (178, 179), (185, 185), (1632, 1641), (1776, 1785), (1984, 1993), (2406, 2415),
   (2534, 2543), (2662, 2671), (2790, 2799), (2918, 2927), (3046, 3055), (3174, 3183),
   (3302, 3311), (3430, 3439), (3558, 3567), (3664, 3673), (3792, 3801), (3872, 3881),
   (4160, 4169), (4240, 4249), (4969, 4977), (6112, 6121), (6160, 6169), (6470, 6479),
   (6608, 6618), (6784, 6793), (6800, 6809), (6992, 7001), (7088, 7097), (7232, 7241),
   (7248, 7257), (8304, 8304), (8308, 8313), (8320, 8329), (9312, 9320), (9332, 9340),
   (9352, 9360), (9450, 9450), (9461, 9469), (9471, 9471), (10102, 10110), (10112, 10120),
   (10122, 10130), (42528, 42537), (43216, 43225), (43264, 43273), (43472, 43481), (43504,
   43513), (43600, 43609), (44016, 44025), (65296, 65305), (66720, 66729), (68160, 68163),
   (68912, 68921), (69216, 69224), (69714, 69722), (69734, 69743), (69872, 69881), (69942,
   69951), (70096, 70105), (70384, 70393), (70736, 70745), (70864, 70873), (71248, 71257),
   (71360, 71369), (71472, 71481), (71904, 71913), (72016, 72025), (72784, 72793), (73040,
   73049), (73120, 73129), (92768, 92777), (92864, 92873), (93008, 93017), (120782, 120831),
   (123200, 123209), (123632, 123641), (125264, 125273), (127232, 127242), (130032, 130041)]"

definition isdigit_char :: "codepoint \<Rightarrow> bool" where
  "isdigit_char c = in_ranges digit_ranges c"

text \<open>\<^verbatim>\<open>s.isdigit()\<close>: every character is a digit and there is at least one.\<close>

definition isdigit :: "pystr \<Rightarrow> bool" where
  "isdigit s = (s \<noteq> [] \<and> list_all isdigit_char s)"

text \<open>\<^verbatim>\<open>s.strip()\<close> removes leading and trailing whitespace.\<close>

definition strip :: "pystr \<Rightarrow> pystr" where
  "strip s = rev (dropWhile isspace (rev (dropWhile isspace s)))"

text \<open>\<^verbatim>\<open>sep.join(xs)\<close>\<close>

fun join :: "pystr \<Rightarrow> pystr list \<Rightarrow> pystr" where
  "join sep [] = []"
| "join sep [x] = x"
| "join sep (x # y # ys) = x @ sep @ join sep (y # ys)"

section \<open>The block extractor\<close>

text \<open>
  The page-content source yields, per page, a height and blocks; a text block has lines
  of spans, an image block has no \<^verbatim>\<open>"lines"\<close> key. Coordinates and font sizes are
  Python floats, that is IEEE 754 double-precision numbers. A finite float is taken as
  the real number it denotes. Arithmetic on floats rounds: \<open>fl\<close> maps a real to the
  nearest double (ties to even, with the subnormal range below \<open>2 powr - 1022\<close>), so
  the literal \<^verbatim>\<open>0.10\<close> is \<open>fl 0.10\<close> and the product \<^verbatim>\<open>page_height * 0.10\<close> is
  \<open>fl (height * fl 0.10)\<close>. Comparisons are exact. Infinities and NaN are left out:
  both products are smaller in magnitude than the page height, so they cannot overflow.
\<close>

definition round_half_even :: "real \<Rightarrow> int" where
  "round_half_even x =
     (let f = \<lfloor>x\<rfloor>; d = x - of_int f
      in if d < 1 / 2 then f else if 1 / 2 < d then f + 1 else if even f then f else f + 1)"

definition fl :: "real \<Rightarrow> real" where
  "fl x =
     (if x = 0 then 0
      else let e = max \<lfloor>log 2 \<bar>x\<bar>\<rfloor> (- 1022) - 52
           in of_int (round_half_even (x / 2 powr of_int e)) * 2 powr of_int e)"

text \<open>\<^verbatim>\<open>page_height * 0.10\<close> and \<^verbatim>\<open>page_height * 0.85\<close>\<close>

definition header_limit :: "real \<Rightarrow> real" where
  "header_limit page_height = fl (page_height * fl 0.10)"

definition footer_limit :: "real \<Rightarrow> real" where
  "footer_limit page_height = fl (page_height * fl 0.85)"

record span =
  span_text :: pystr
  span_size :: real
  span_flags :: int

record block =
  block_lines :: "span list list option"
  block_bbox :: "(real \<times> real \<times> real \<times> real) option"

record page =
  page_height :: real
  page_blocks :: "block list"

text \<open>\<^verbatim>\<open>block.get("bbox", [0, 0, 0, 0])[1]\<close>\<close>

definition block_y_top :: "block \<Rightarrow> real" where
  "block_y_top b = (case block_bbox b of None \<Rightarrow> 0 | Some (x0, y0, x1, y1) \<Rightarrow> y0)"

definition is_superscript :: "span \<Rightarrow> bool" where
  "is_superscript sp =
     (span_size sp < 8 \<or> span_flags sp AND 1 \<noteq> 0 \<or>
      (isdigit (strip (span_text sp)) \<and> span_size sp < 10))"

text \<open>The loop over the spans of a line; the accumulator is \<^verbatim>\<open>line_text\<close>.\<close>

fun assemble_line :: "span list \<Rightarrow> pystr \<Rightarrow> pystr" where
  "assemble_line [] line_text = line_text"
| "assemble_line (sp # sps) line_text =
     (if is_superscript sp \<and> isdigit (strip (span_text sp))
      then assemble_line sps line_text
      else assemble_line sps (line_text @ span_text sp))"

text \<open>The loop over the lines of a block; the accumulator is \<^verbatim>\<open>block_line_texts\<close>.\<close>

fun collect_lines :: "span list list \<Rightarrow> pystr list \<Rightarrow> pystr list" where
  "collect_lines [] block_line_texts = block_line_texts"
| "collect_lines (line # lines) block_line_texts =
     (let stripped = strip (assemble_line line [])
      in if isdigit stripped \<and> length stripped \<le> 3 then collect_lines lines block_line_texts
         else if stripped \<noteq> [] then collect_lines lines (block_line_texts @ [stripped])
         else collect_lines lines block_line_texts)"

text \<open>One pass of the loop over blocks: what the block appends to \<^verbatim>\<open>full_text\<close>, if anything.\<close>

definition block_result :: "real \<Rightarrow> block \<Rightarrow> pystr option" where
  "block_result height b =
     (case block_lines b of
        None \<Rightarrow> None
      | Some lines \<Rightarrow>
          if block_y_top b < header_limit height then None
          else if block_y_top b > footer_limit height then None
          else (let block_line_texts = collect_lines lines []
                in if block_line_texts \<noteq> [] then Some (join (asc '' '') block_line_texts)
                   else None))"

fun extract_blocks :: "real \<Rightarrow> block list \<Rightarrow> pystr list \<Rightarrow> pystr list" where
  "extract_blocks height [] full_text = full_text"
| "extract_blocks height (b # bs) full_text =
     (case block_result height b of
        None \<Rightarrow> extract_blocks height bs full_text
      | Some block_text \<Rightarrow> extract_blocks height bs (full_text @ [block_text]))"

fun extract_pages :: "page list \<Rightarrow> pystr list \<Rightarrow> pystr list" where
  "extract_pages [] full_text = full_text"
| "extract_pages (p # ps) full_text =
     extract_pages ps (extract_blocks (page_height p) (page_blocks p) full_text)"

definition extract_text_without_footnotes :: "page list \<Rightarrow> pystr" where
  "extract_text_without_footnotes doc = join [10, 10] (extract_pages doc [])"

section \<open>Case-insensitive matching\<close>

text \<open>
  Under \<^verbatim>\<open>re.IGNORECASE\<close> a Unicode pattern compares the simple lower-case mapping
  of the subject character. The table lists, for each run of characters that have such a
  mapping, the first and last code point, the step within the run and the image of the
  first one; \<open>extra_cases\<close> is the table of further equivalents the pattern compiler
  adds to a literal (dotless i for i, long s for s, ...).
\<close>

definition lower_table :: "(nat \<times> nat \<times> nat \<times> nat) list" where
  "lower_table = [
   (65, 90, 1, 97), (192, 214, 1, 224), (216, 222, 1, 248), (256, 302, 2, 257), (304, 304,
   1, 105), (306, 310, 2, 307), (313, 327, 2, 314), (330, 374, 2, 331), (376, 376, 1, 255),
   (377, 381, 2, 378), (385, 385, 1, 595), (386, 388, 2, 387), (390, 390, 1, 596), (391,
   391, 1, 392), (393, 394, 1, 598), (395, 395, 1, 396), (398, 398, 1, 477), (399, 399, 1,
   601), (400, 400, 1, 603), (401, 401, 1, 402), (403, 403, 1, 608), (404, 404, 1, 611),
   (406, 406, 1, 617), (407, 407, 1, 616), (408, 408, 1, 409), (412, 412, 1, 623), (413,
   413, 1, 626), (415, 415, 1, 629), (416, 420, 2, 417), (422, 422, 1, 640), (423, 423, 1,
   424), (425, 425, 1, 643), (428, 428, 1, 429), (430, 430, 1, 648), (431, 431, 1, 432),
   (433, 434, 1, 650), (435, 437, 2, 436), (439, 439, 1, 658), (440, 440, 1, 441), (444,
   444, 1, 445), (452, 452, 1, 454), (453, 453, 1, 454), (455, 455, 1, 457), (456, 456, 1,
   457), (458, 458, 1, 460), (459, 475, 2, 460), (478, 494, 2, 479), (497, 497, 1, 499),
   (498, 500, 2, 499), (502, 502, 1, 405), (503, 503, 1, 447), (504, 542, 2, 505), (544,
   544, 1, 414), (546, 562, 2, 547), (570, 570, 1, 11365), (571, 571, 1, 572), (573, 573, 1,
   410), (574, 574, 1, 11366), (577, 577, 1, 578), (579, 579, 1, 384), (580, 580, 1, 649),
   (581, 581, 1, 652), (582, 590, 2, 583), (880, 882, 2, 881), (886, 886, 1, 887), (895,
   895, 1, 1011), (902, 902, 1, 940), (904, 906, 1, 941), (908, 908, 1, 972), (910, 911, 1,
   973), (913, 929, 1, 945), (931, 939, 1, 963), (975, 975, 1, 983), (984, 1006, 2, 985),
   (1012, 1012, 1, 952), (1015, 1015, 1, 1016), (1017, 1017, 1, 1010), (1018, 1018, 1,
   1019), (1021, 1023, 1, 891), (1024, 1039, 1, 1104), (1040, 1071, 1, 1072), (1120, 1152,
   2, 1121), (1162, 1214, 2, 1163), (1216, 1216, 1, 1231), (1217, 1229, 2, 1218), (1232,
   1326, 2, 1233), (1329, 1366, 1, 1377), (4256, 4293, 1, 11520), (4295, 4295, 1, 11559),
   (4301, 4301, 1, 11565), (5024, 5103, 1, 43888), (5104, 5109, 1, 5112), (7312, 7354, 1,
   4304), (7357, 7359, 1, 4349), (7680, 7828, 2, 7681), (7838, 7838, 1, 223), (7840, 7934,
   2, 7841), (7944, 7951, 1, 7936), (7960, 7965, 1, 7952), (7976, 7983, 1, 7968), (7992,
   7999, 1, 7984), (8008, 8013, 1, 8000), (8025, 8031, 2, 8017), (8040, 8047, 1, 8032),
   (8072, 8079, 1, 8064), (8088, 8095, 1, 8080), (8104, 8111, 1, 8096), (8120, 8121, 1,
   8112), (8122, 8123, 1, 8048), (8124, 8124, 1, 8115), (8136, 8139, 1, 8050), (8140, 8140,
   1, 8131), (8152, 8153, 1, 8144), (8154, 8155, 1, 8054), (8168, 8169, 1, 8160), (8170,
   8171, 1, 8058), (8172, 8172, 1, 8165), (8184, 8185, 1, 8056), (8186, 8187, 1, 8060),
   (8188, 8188, 1, 8179), (8486, 8486, 1, 969), (8490, 8490, 1, 107), (8491, 8491, 1, 229),
   (8498, 8498, 1, 8526), (8544, 8559, 1, 8560), (8579, 8579, 1, 8580), (9398, 9423, 1,
   9424), (11264, 11311, 1, 11312), (11360, 11360, 1, 11361), (11362, 11362, 1, 619),
   (11363, 11363, 1, 7549), (11364, 11364, 1, 637), (11367, 11371, 2, 11368), (11373, 11373,
   1, 593), (11374, 11374, 1, 625), (11375, 11375, 1, 592), (11376, 11376, 1, 594), (11378,
   11378, 1, 11379), (11381, 11381, 1, 11382), (11390, 11391, 1, 575), (11392, 11490, 2,
   11393), (11499, 11501, 2, 11500), (11506, 11506, 1, 11507), (42560, 42604, 2, 42561),
   (42624, 42650, 2, 42625), (42786, 42798, 2, 42787), (42802, 42862, 2, 42803), (42873,
   42875, 2, 42874), (42877, 42877, 1, 7545), (42878, 42886, 2, 42879), (42891, 42891, 1,
   42892), (42893, 42893, 1, 613), (42896, 42898, 2, 42897), (42902, 42920, 2, 42903),
   (42922, 42922, 1, 614), (42923, 42923, 1, 604), (42924, 42924, 1, 609), (42925, 42925, 1,
   620), (42926, 42926, 1, 618), (42928, 42928, 1, 670), (42929, 42929, 1, 647), (42930,
   42930, 1, 669), (42931, 42931, 1, 43859), (42932, 42946, 2, 42933), (42948, 42948, 1,
   42900), (42949, 42949, 1, 642), (42950, 42950, 1, 7566), (42951, 42953, 2, 42952),
   (42960, 42960, 1, 42961), (42966, 42968, 2, 42967), (42997, 42997, 1, 42998), (65313,
   65338, 1, 65345), (66560, 66599, 1, 66600), (66736, 66771, 1, 66776), (66928, 66938, 1,
   66967), (66940, 66954, 1, 66979), (66956, 66962, 1, 66995), (66964, 66965, 1, 67003),
   (68736, 68786, 1, 68800), (71840, 71871, 1, 71872), (93760, 93791, 1, 93792), (125184,
   125217, 1, 125218)]"

definition unicode_tolower :: "codepoint \<Rightarrow> codepoint" where
  "unicode_tolower c =
     (case find (\<lambda>(lo, hi, step, target). lo \<le> c \<and> c \<le> hi \<and> (c - lo) mod step = 0) lower_table of
        None \<Rightarrow> c
      | Some (lo, hi, step, target) \<Rightarrow> target + (c - lo))"

definition extra_cases :: "(nat \<times> nat list) list" where
  "extra_cases = [
   (105, [305]), (115, [383]), (181, [956]), (305, [105]), (383, [115]), (837, [953, 8126]),
   (912, [8147]), (944, [8163]), (946, [976]), (949, [1013]), (952, [977]), (953, [837,
   8126]), (954, [1008]), (956, [181]), (960, [982]), (961, [1009]), (962, [963]), (963,
   [962]), (966, [981]), (976, [946]), (977, [952]), (981, [966]), (982, [960]), (1008,
   [954]), (1009, [961]), (1013, [949]), (1074, [7296]), (1076, [7297]), (1086, [7298]),
   (1089, [7299]), (1090, [7300, 7301]), (1098, [7302]), (1123, [7303]), (7296, [1074]),
   (7297, [1076]), (7298, [1086]), (7299, [1089]), (7300, [1090, 7301]), (7301, [1090,
   7300]), (7302, [1098]), (7303, [1123]), (7304, [42571]), (7777, [7835]), (7835, [7777]),
   (8126, [837, 953]), (8147, [912]), (8163, [944]), (42571, [7304]), (64261, [64262]),
   (64262, [64261])]"

definition ignorecase_fixes :: "codepoint \<Rightarrow> codepoint list" where
  "ignorecase_fixes c = (case map_of extra_cases c of None \<Rightarrow> [] | Some cs \<Rightarrow> cs)"

text \<open>A subject character \<open>x\<close> matches the cased pattern character \<open>p\<close>.\<close>

definition matches_ignorecase :: "codepoint \<Rightarrow> codepoint \<Rightarrow> bool" where
  "matches_ignorecase p x =
     (let l = unicode_tolower x; lo = unicode_tolower p
      in l = lo \<or> l \<in> set (ignorecase_fixes lo))"

section \<open>Regular expressions\<close>

text \<open>
  The patterns of the normalizer use literals, character sets, greedy repetition of a
  single-character atom, sequence, alternation, a greedy optional group, one capturing
  group, look-ahead, a one-character look-behind and \<^verbatim>\<open>$\<close>. An atom matches one
  character. With \<^verbatim>\<open>re.IGNORECASE\<close> the compiler keeps literals and sets without
  cased characters as they are (\<open>Lit\<close>, \<open>In\<close>, \<open>NotIn\<close>) and turns the cased ones into
  their case-insensitive forms (\<open>LitI\<close>, \<open>InI\<close>).
\<close>

datatype item = Chr codepoint | Range codepoint codepoint | Digits | Spaces

fun item_has :: "item \<Rightarrow> codepoint \<Rightarrow> bool" where
  "item_has (Chr c) x = (x = c)"
| "item_has (Range a b) x = (a \<le> x \<and> x \<le> b)"
| "item_has Digits x = isdecimal x"
| "item_has Spaces x = isspace x"

fun item_has_ignorecase :: "item \<Rightarrow> codepoint \<Rightarrow> bool" where
  "item_has_ignorecase (Chr c) x = matches_ignorecase c x"
| "item_has_ignorecase (Range a b) x = list_ex (\<lambda>c. matches_ignorecase c x) [a..<Suc b]"
| "item_has_ignorecase Digits x = isdecimal (unicode_tolower x)"
| "item_has_ignorecase Spaces x = isspace (unicode_tolower x)"

datatype atom =
    Lit codepoint
  | LitI codepoint
  | In "item list"
  | NotIn "item list"
  | InI "item list"

fun atom_ok :: "atom \<Rightarrow> codepoint \<Rightarrow> bool" where
  "atom_ok (Lit c) x = (x = c)"
| "atom_ok (LitI c) x = matches_ignorecase c x"
| "atom_ok (In items) x = list_ex (\<lambda>i. item_has i x) items"
| "atom_ok (NotIn items) x = (\<not> list_ex (\<lambda>i. item_has i x) items)"
| "atom_ok (InI items) x = list_ex (\<lambda>i. item_has_ignorecase i x) items"

datatype regex =
    Eps
  | Atom atom
  | Rep atom nat "nat option"
  | Seq regex regex
  | Alt regex regex
  | Opt regex
  | Group nat regex
  | Ahead regex
  | Behind atom
  | Eos

fun seq :: "regex list \<Rightarrow> regex" where
  "seq [] = Eps"
| "seq (r # rs) = Seq r (seq rs)"

definition word_ignorecase :: "pystr \<Rightarrow> regex list" where
  "word_ignorecase w = map (\<lambda>c. Atom (LitI c)) w"

type_synonym captures = "(nat \<times> pystr) list"

text \<open>
  \<open>rmatch r behind rest\<close> lists the ways \<open>r\<close> matches at the position whose preceding
  text, read backwards, is \<open>behind\<close> and whose following text is \<open>rest\<close>: the number of
  characters consumed and the groups captured, in the order in which the backtracking
  matcher tries them. The first entry is the match the matcher reports.
\<close>

fun rmatch :: "regex \<Rightarrow> pystr \<Rightarrow> pystr \<Rightarrow> (nat \<times> captures) list" where
  "rmatch Eps behind rest = [(0, [])]"
| "rmatch (Atom a) behind rest =
     (case rest of [] \<Rightarrow> [] | x # _ \<Rightarrow> if atom_ok a x then [(1, [])] else [])"
| "rmatch (Rep a lo hi) behind rest =
     (let m = length (takeWhile (atom_ok a) rest);
          m' = (case hi of None \<Rightarrow> m | Some h \<Rightarrow> min h m)
      in map (\<lambda>k. (k, [])) (rev [lo..<Suc m']))"
| "rmatch (Seq r1 r2) behind rest =
     concat (map (\<lambda>(n1, c1).
        map (\<lambda>(n2, c2). (n1 + n2, c1 @ c2))
          (rmatch r2 (rev (take n1 rest) @ behind) (drop n1 rest)))
        (rmatch r1 behind rest))"
| "rmatch (Alt r1 r2) behind rest = rmatch r1 behind rest @ rmatch r2 behind rest"
| "rmatch (Opt r) behind rest = rmatch r behind rest @ [(0, [])]"
| "rmatch (Group k r) behind rest =
     map (\<lambda>(n, c). (n, c @ [(k, take n rest)])) (rmatch r behind rest)"
| "rmatch (Ahead r) behind rest =
     (case rmatch r behind rest of [] \<Rightarrow> [] | (n, c) # _ \<Rightarrow> [(0, c)])"
| "rmatch (Behind a) behind rest =
     (case behind of [] \<Rightarrow> [] | x # _ \<Rightarrow> if atom_ok a x then [(0, [])] else [])"
| "rmatch Eos behind rest = (if rest = [] \<or> rest = [10] then [(0, [])] else [])"

fun groups_of :: "regex \<Rightarrow> nat list" where
  "groups_of (Seq r1 r2) = groups_of r1 @ groups_of r2"
| "groups_of (Alt r1 r2) = groups_of r1 @ groups_of r2"
| "groups_of (Opt r) = groups_of r"
| "groups_of (Group k r) = k # groups_of r"
| "groups_of (Ahead r) = groups_of r"
| "groups_of r = []"

text \<open>A replacement template: literal text and group references \<^verbatim>\<open>\k\<close>.\<close>

datatype template_part = Text pystr | Ref nat

fun expand :: "template_part list \<Rightarrow> captures \<Rightarrow> pystr" where
  "expand [] c = []"
| "expand (Text s # ps) c = s @ expand ps c"
| "expand (Ref k # ps) c =
     (case map_of (rev c) k of None \<Rightarrow> [] | Some g \<Rightarrow> g) @ expand ps c"

text \<open>
  The first match at a position. After an empty match the next search starts at the same
  position and must advance: it takes the first non-empty alternative there.
\<close>

definition first_match ::
  "regex \<Rightarrow> pystr \<Rightarrow> pystr \<Rightarrow> bool \<Rightarrow> (nat \<times> captures) option" where
  "first_match r behind rest must_advance =
     (case (if must_advance then filter (\<lambda>(n, c). 0 < n) (rmatch r behind rest)
            else rmatch r behind rest) of
        [] \<Rightarrow> None
      | m # _ \<Rightarrow> Some m)"

text \<open>
  The scan of \<^verbatim>\<open>re.sub\<close>: left to right, non-overlapping; text between matches is
  copied, each match is replaced by the expanded template.
\<close>

function sub_from ::
  "regex \<Rightarrow> template_part list \<Rightarrow> pystr \<Rightarrow> pystr \<Rightarrow> bool \<Rightarrow> pystr" where
  "sub_from r t behind rest must_advance =
     (case first_match r behind rest must_advance of
        None \<Rightarrow> (case rest of [] \<Rightarrow> [] | x # xs \<Rightarrow> x # sub_from r t (x # behind) xs False)
      | Some (n, c) \<Rightarrow>
          expand t c @
          (if n = 0 then sub_from r t behind rest True
           else sub_from r t (rev (take n rest) @ behind) (drop n rest) False))"
  by pat_completeness auto
termination
proof -
  have bound: "(n, c) \<in> set (rmatch r b s) \<Longrightarrow> n \<le> length s" for r b s n c
  proof (induction r arbitrary: b s n c)
    case (Rep a lo hi)
    have "length (takeWhile (atom_ok a) s) \<le> length s"
      by (rule length_takeWhile_le)
    with Rep show ?case
      by (auto simp: Let_def split: option.splits)
  next
    case (Seq r1 r2)
    then obtain n1 c1 n2 c2 where
      a: "(n1, c1) \<in> set (rmatch r1 b s)" and
      b: "(n2, c2) \<in> set (rmatch r2 (rev (take n1 s) @ b) (drop n1 s))" and
      n: "n = n1 + n2"
      by auto
    from Seq.IH(1) [OF a] Seq.IH(2) [OF b] n show ?case
      by simp
  next
    case (Ahead r)
    then show ?case
      by (auto split: list.splits)
  qed (auto split: list.splits if_splits)
  have fm: "first_match r b s adv = Some (n, c) \<Longrightarrow> n \<le> length s \<and> (adv \<longrightarrow> 0 < n)"
    for r b s adv n c
  proof -
    assume a: "first_match r b s adv = Some (n, c)"
    show ?thesis
    proof (cases adv)
      case True
      with a obtain ms where "filter (\<lambda>(n, c). 0 < n) (rmatch r b s) = (n, c) # ms"
        by (auto simp: first_match_def split: list.splits)
      then have "(n, c) \<in> set (filter (\<lambda>(n, c). 0 < n) (rmatch r b s))"
        by simp
      then show ?thesis
        using bound [of n c r b s] by auto
    next
      case False
      with a obtain ms where "rmatch r b s = (n, c) # ms"
        by (auto simp: first_match_def split: list.splits)
      then have "(n, c) \<in> set (rmatch r b s)"
        by simp
      then show ?thesis
        using bound [of n c r b s] False by auto
    qed
  qed
  show ?thesis
    by (relation "measures [\<lambda>(r, t, behind, rest, adv). length rest,
                             \<lambda>(r, t, behind, rest, adv). if adv then 0 else 1]")
       (auto dest!: fm)
qed

declare sub_from.simps [simp del]

datatype re_error = InvalidGroupReference nat

text \<open>
  \<^verbatim>\<open>re.sub(pattern, repl, text)\<close>. The template is checked behind the scan: a
  reference to a group the pattern does not have raises \<^verbatim>\<open>re.error\<close>.
\<close>

definition re_sub :: "regex \<Rightarrow> template_part list \<Rightarrow> pystr \<Rightarrow> re_error + pystr" where
  "re_sub r t s =
     (case find (\<lambda>p. case p of Ref k \<Rightarrow> k \<notin> set (groups_of r) | Text _ \<Rightarrow> False) t of
        Some (Ref k) \<Rightarrow> Inl (InvalidGroupReference k)
      | _ \<Rightarrow> Inr (sub_from r t [] s False))"

definition bind :: "'e + 'a \<Rightarrow> ('a \<Rightarrow> 'e + 'b) \<Rightarrow> 'e + 'b" where
  "bind m f = (case m of Inl e \<Rightarrow> Inl e | Inr x \<Rightarrow> f x)"

section \<open>The text normalizer\<close>

text \<open>\<^verbatim>\<open>s.replace(old, new)\<close> for a one-character \<open>old\<close>.\<close>

definition replace_char :: "codepoint \<Rightarrow> pystr \<Rightarrow> pystr \<Rightarrow> pystr" where
  "replace_char old new s = concat (map (\<lambda>c. if c = old then new else [c]) s)"

text \<open>The ten superscript digits, in the order of the source: U+2070, U+00B9, U+00B2,
  U+00B3, U+2074 .. U+2079.\<close>

definition superscript_digits :: pystr where
  "superscript_digits = [8304, 185, 178, 179, 8308, 8309, 8310, 8311, 8312, 8313]"

definition remove_superscripts :: "pystr \<Rightarrow> pystr" where
  "remove_superscripts s = fold (\<lambda>digit text. replace_char digit [] text) superscript_digits s"

text \<open>The tail shared by the annotation patterns:
  \<^verbatim>\<open>:[^\n.]*(?:\.[^\n]*)?(?=\n|$)\<close>\<close>

definition to_end_of_line :: "regex list" where
  "to_end_of_line =
     [Atom (Lit 58),
      Rep (NotIn [Chr 10, Chr 46]) 0 None,
      Opt (seq [Atom (Lit 46), Rep (NotIn [Chr 10]) 0 None]),
      Ahead (Alt (Atom (Lit 10)) Eos)]"

text \<open>\<^verbatim>\<open>L\<close>a-acute\<^verbatim>\<open>sd:[^\n.]*(?:\.[^\n]*)?(?=\n|$)\<close>, ignoring case\<close>

definition see_pattern :: regex where
  "see_pattern = seq (word_ignorecase [76, 225, 115, 100] @ to_end_of_line)"

text \<open>The amendment markers (a-acute is 225, i-acute 237, o-acute 243, u-diaeresis 252):
  \<^verbatim>\<open>Megallapitotta\<close>, \<^verbatim>\<open>Hatalyos\<close>, \<^verbatim>\<open>Beiktatta\<close>, \<^verbatim>\<open>Modositotta\<close>,
  \<^verbatim>\<open>Hatalyon kivul helyezte\<close>, each followed by the same tail, ignoring case.\<close>

definition amendment_pattern :: regex where
  "amendment_pattern =
     seq (Alt (seq (word_ignorecase [77, 101, 103, 225, 108, 108, 97, 112, 237, 116, 111, 116, 116, 97]))
         (Alt (seq (word_ignorecase [72, 97, 116, 225, 108, 121, 111, 115]))
         (Alt (seq (word_ignorecase [66, 101, 105, 107, 116, 97, 116, 116, 97]))
         (Alt (seq (word_ignorecase [77, 243, 100, 111, 115, 237, 116, 111, 116, 116, 97]))
              (seq (word_ignorecase [72, 97, 116, 225, 108, 121, 111, 110] @ [Atom (Lit 32)] @
                    word_ignorecase [107, 237, 118, 252, 108] @ [Atom (Lit 32)] @
                    word_ignorecase [104, 101, 108, 121, 101, 122, 116, 101])))))
          # to_end_of_line)"

text \<open>The letters of the document's alphabet as the patterns list them: \<^verbatim>\<open>a-z\<close> and
  the nine accented lower-case letters.\<close>

definition alphabet :: "item list" where
  "alphabet = [Range 97 122, Chr 225, Chr 233, Chr 237, Chr 243, Chr 246, Chr 337, Chr 250,
     Chr 252, Chr 369]"

text \<open>\<^verbatim>\<open>\(\d{4}\.\s*[IVX]+\.\s*\d+-[a-z...]+\.\)\<close>, ignoring case\<close>

definition citation_pattern :: regex where
  "citation_pattern =
     seq [Atom (Lit 40), Rep (In [Digits]) 4 (Some 4), Atom (Lit 46), Rep (In [Spaces]) 0 None,
          Rep (InI [Chr 73, Chr 86, Chr 88]) 1 None, Atom (Lit 46), Rep (In [Spaces]) 0 None,
          Rep (In [Digits]) 1 None, Atom (Lit 45), Rep (InI alphabet) 1 None, Atom (Lit 46),
          Atom (Lit 41)]"

text \<open>\<^verbatim>\<open>(?<=[a-z...])(\d{1,3})(?=\s|[.,;:!?)]|$)\<close>, ignoring case\<close>

definition suffix_digits_pattern :: regex where
  "suffix_digits_pattern =
     seq [Behind (InI alphabet),
          Group 1 (Rep (In [Digits]) 1 (Some 3)),
          Ahead (Alt (Atom (In [Spaces]))
                (Alt (Atom (In [Chr 46, Chr 44, Chr 59, Chr 58, Chr 33, Chr 63, Chr 41])) Eos))]"

text \<open>\<^verbatim>\<open>\((\d+)\)\s*\n\n+\<close> with the template \<^verbatim>\<open>(\1)\<close> and a space\<close>

definition marker_pattern :: regex where
  "marker_pattern =
     seq [Atom (Lit 40), Group 1 (Rep (In [Digits]) 1 None), Atom (Lit 41),
          Rep (In [Spaces]) 0 None, Atom (Lit 10), Rep (Lit 10) 1 None]"

definition marker_template :: "template_part list" where
  "marker_template = [Text [40], Ref 1, Text [41, 32]]"

text \<open>\<^verbatim>\<open> +\<close>, \<^verbatim>\<open>\n{3,}\<close> and \<^verbatim>\<open>\n\n\s*\n\n\<close>\<close>

definition spaces_pattern :: regex where
  "spaces_pattern = Rep (Lit 32) 1 None"

definition breaks_pattern :: regex where
  "breaks_pattern = Rep (Lit 10) 3 None"

definition blank_paragraph_pattern :: regex where
  "blank_paragraph_pattern =
     seq [Atom (Lit 10), Atom (Lit 10), Rep (In [Spaces]) 0 None, Atom (Lit 10), Atom (Lit 10)]"

definition clean_text :: "pystr \<Rightarrow> re_error + pystr" where
  "clean_text text0 =
     (let text = remove_superscripts text0 in
      bind (re_sub see_pattern [] text) (\<lambda>text.
      bind (re_sub amendment_pattern [] text) (\<lambda>text.
      bind (re_sub citation_pattern [] text) (\<lambda>text.
      bind (re_sub suffix_digits_pattern [] text) (\<lambda>text.
      bind (re_sub marker_pattern marker_template text) (\<lambda>text.
      bind (re_sub spaces_pattern [Text [32]] text) (\<lambda>text.
      bind (re_sub breaks_pattern [Text [10, 10]] text) (\<lambda>text.
      bind (re_sub blank_paragraph_pattern [Text [10, 10]] text) (\<lambda>text.
      Inr (strip text))))))))))"

section \<open>The document writer\<close>

text \<open>\<^verbatim>\<open>s.split(sep)\<close> for a two-character separator; \<open>acc\<close> is the segment being read.\<close>

fun split2 :: "codepoint \<Rightarrow> codepoint \<Rightarrow> pystr \<Rightarrow> pystr \<Rightarrow> pystr list" where
  "split2 a b acc [] = [acc]"
| "split2 a b acc [x] = [acc @ [x]]"
| "split2 a b acc (x # y # zs) =
     (if x = a \<and> y = b then acc # split2 a b [] zs else split2 a b (acc @ [x]) (y # zs))"

text \<open>
  The document is the list of paragraph records added to it; the loop over the segments
  appends one record for each segment whose cleaned text is not empty.
\<close>

fun add_paragraphs :: "pystr list \<Rightarrow> pystr list \<Rightarrow> re_error + pystr list" where
  "add_paragraphs [] doc = Inr doc"
| "add_paragraphs (para # paras) doc =
     bind (re_sub spaces_pattern [Text [32]] (replace_char 10 [32] para)) (\<lambda>collapsed.
       let para_text = strip collapsed
       in if para_text \<noteq> [] then add_paragraphs paras (doc @ [para_text])
          else add_paragraphs paras doc)"

definition create_word_document :: "pystr \<Rightarrow> re_error + pystr list" where
  "create_word_document text = add_paragraphs (split2 10 10 [] text) []"

section \<open>Sample inputs\<close>

text \<open>Sample inputs used to exercise the extractor.\<close>

definition plain_span :: "string \<Rightarrow> real \<Rightarrow> span" where
  "plain_span t sz = \<lparr>span_text = asc t, span_size = sz, span_flags = 0\<rparr>"

definition body_block :: "real \<Rightarrow> block" where
  "body_block y =
     \<lparr>block_lines = Some [[plain_span ''Body'' 12]], block_bbox = Some (0, y, 50, y + 10)\<rparr>"

text \<open>
  A two-page document: on a page of height 100 one block in the header region, one in
  the body and one in the footer region; on a page of height 43 one block whose top edge
  is the double \<^verbatim>\<open>4.3\<close>, the value of \<^verbatim>\<open>43.0 * 0.10\<close>.
\<close>

definition sample_doc :: "page list" where
  "sample_doc =
     [\<lparr>page_height = 100, page_blocks = [body_block 5, body_block 50, body_block 90]\<rparr>,
      \<lparr>page_height = 43, page_blocks = [body_block (4841369599423283 / 1125899906842624)]\<rparr>]"

definition boundary_doc :: "page list" where
  "boundary_doc = [\<lparr>page_height = 100, page_blocks = [body_block 10]\<rparr>]"

section \<open>Auxiliary functions\<close>

text \<open>The characters a replacement template can contribute.\<close>

fun template_chars :: "template_part list \<Rightarrow> nat set" where
  "template_chars [] = {}"
| "template_chars (Text s # ps) = set s \<union> template_chars ps"
| "template_chars (Ref k # ps) = template_chars ps"

text \<open>The scans of the last three substitutions of \<open>clean_text\<close>, by name.\<close>

definition collapse_spaces :: "pystr \<Rightarrow> pystr" where
  "collapse_spaces s = sub_from spaces_pattern [Text [32]] [] s False"

definition collapse_breaks :: "pystr \<Rightarrow> pystr" where
  "collapse_breaks s = sub_from breaks_pattern [Text [10, 10]] [] s False"

definition drop_blank_paragraphs :: "pystr \<Rightarrow> pystr" where
  "drop_blank_paragraphs s = sub_from blank_paragraph_pattern [Text [10, 10]] [] s False"

text \<open>
  \<open>last_break s\<close> is the greatest \<open>k\<close> such that the first \<open>k\<close> characters of \<open>s\<close> are
  whitespace and two line breaks follow them: where the greedy \<^verbatim>\<open>\s*\<close> of the
  blank-paragraph pattern ends. \<open>blank_at s\<close>: that pattern matches at the start of \<open>s\<close>.
\<close>

fun last_break :: "pystr \<Rightarrow> nat option" where
  "last_break [] = None"
| "last_break (x # xs) =
     (if isspace x
      then (case last_break xs of
              Some k \<Rightarrow> Some (Suc k)
            | None \<Rightarrow> if prefix [10, 10] (x # xs) then Some 0 else None)
      else None)"

definition blank_at :: "pystr \<Rightarrow> bool" where
  "blank_at s = (prefix [10, 10] s \<and> last_break (drop 2 s) \<noteq> None)"

(*DEFS-END*)

section \<open>Properties of the block extractor\<close>

lemmas char_class_defs = asc_def strip_def isspace_def isdigit_def isdigit_char_def isdecimal_def
  in_ranges_def whitespace_ranges_def digit_ranges_def decimal_ranges_def

lemma collect_body: "collect_lines [[plain_span ''Body'' 12]] [] = [asc ''Body'']"
  by (simp add: plain_span_def is_superscript_def char_class_defs)

lemma assemble_line_filter:
  "assemble_line spans acc = acc @ concat (map span_text
      (filter (\<lambda>sp. \<not> (is_superscript sp \<and> isdigit (strip (span_text sp)))) spans))"
  by (induction spans arbitrary: acc) auto

subsection \<open>Rounding to double precision\<close>

lemma round_half_even_eqI:
  assumes "\<bar>x - of_int n\<bar> < 1 / 2 \<or> (\<bar>x - of_int n\<bar> = 1 / 2 \<and> even n)"
  shows "round_half_even x = n"
proof (cases "of_int n \<le> x")
  case True
  with assms have "\<lfloor>x\<rfloor> = n" by (intro floor_unique) auto
  with assms True show ?thesis by (auto simp: round_half_even_def Let_def)
next
  case False
  with assms have "\<lfloor>x\<rfloor> = n - 1" by (intro floor_unique) auto
  with assms False show ?thesis by (auto simp: round_half_even_def Let_def)
qed

lemma fl_eqI:
  assumes "2 powr of_int k \<le> \<bar>x\<bar>" and "\<bar>x\<bar> < 2 powr of_int (k + 1)"
    and "q = 2 powr of_int (max k (- 1022) - 52)"
    and "\<bar>x / q - of_int n\<bar> < 1 / 2 \<or> (\<bar>x / q - of_int n\<bar> = 1 / 2 \<and> even n)"
  shows "fl x = of_int n * q"
proof -
  have "(0::real) < 2 powr of_int k" by simp
  with assms(1) have p: "0 < \<bar>x\<bar>" by linarith
  then have x: "x \<noteq> 0" by auto
  from p assms(1,2) have "\<lfloor>log 2 \<bar>x\<bar>\<rfloor> = k"
    by (subst floor_log_eq_powr_iff) auto
  with x assms(3) round_half_even_eqI [OF assms(4)] show ?thesis
    by (simp add: fl_def Let_def)
qed

lemma fl_010: "fl 0.10 = 3602879701896397 / 36028797018963968"
  by (rule fl_eqI [where k = "-4" and n = 7205759403792794 and q = "1 / 72057594037927936", THEN trans])
     (simp_all add: powr_minus_divide)

lemma fl_085: "fl 0.85 = 7656119366529843 / 9007199254740992"
  by (rule fl_eqI [where k = "-1" and n = 7656119366529843 and q = "1 / 9007199254740992", THEN trans])
     (simp_all add: powr_minus_divide)

lemma header_limit_100: "header_limit 100 = 10"
  unfolding header_limit_def fl_010
  by (rule fl_eqI [where k = 3 and n = 5629499534213120 and q = "1 / 562949953421312", THEN trans])
     (simp_all add: powr_minus_divide)

lemma footer_limit_100: "footer_limit 100 = 85"
  unfolding footer_limit_def fl_085
  by (rule fl_eqI [where k = 6 and n = 5981343255101440 and q = "1 / 70368744177664", THEN trans])
     (simp_all add: powr_minus_divide)

lemma header_limit_43: "header_limit 43 = 4841369599423283 / 1125899906842624"
  unfolding header_limit_def fl_010
  by (rule fl_eqI [where k = 2 and n = 4841369599423283 and q = "1 / 1125899906842624", THEN trans])
     (simp_all add: powr_minus_divide)

lemma footer_limit_43: "footer_limit 43 = 2571977599693619 / 70368744177664"
  unfolding footer_limit_def fl_085
  by (rule fl_eqI [where k = 5 and n = 5143955199387238 and q = "1 / 140737488355328", THEN trans])
     (simp_all add: powr_minus_divide)

subsection \<open>Blocks and the output\<close>

lemma extract_blocks_eq:
  "extract_blocks height bs full_text = full_text @ List.map_filter (block_result height) bs"
  by (induction bs arbitrary: full_text) (auto simp: List.map_filter_simps split: option.splits)

lemma extract_pages_eq:
  "extract_pages doc full_text = full_text @
     concat (map (\<lambda>p. List.map_filter (block_result (page_height p)) (page_blocks p)) doc)"
  by (induction doc arbitrary: full_text) (auto simp: extract_blocks_eq)

text \<open>
  C1 (as the code has it). The extractor's output is the join, by double line breaks, of
  what the blocks contribute, page by page and block by block in order. The header and
  footer tests are strict comparisons with the double-precision products: a block
  contributes nothing whatever its lines contain exactly when its top edge is below
  \<^verbatim>\<open>page_height * 0.10\<close> or above \<^verbatim>\<open>page_height * 0.85\<close>; every other text block goes
  on to line assembly and contributes the space-joined text of its surviving lines.
\<close>

theorem block_excluded_iff:
  "extract_text_without_footnotes doc =
     join [10, 10]
       (concat (map (\<lambda>p. List.map_filter (block_result (page_height p)) (page_blocks p)) doc))
   \<and> ((\<forall>lines. block_result height (b\<lparr>block_lines := Some lines\<rparr>) = None)
      \<longleftrightarrow> (block_y_top b < header_limit height \<or> block_y_top b > footer_limit height))
   \<and> (\<not> (block_y_top b < header_limit height \<or> block_y_top b > footer_limit height)
      \<longrightarrow> block_result height (b\<lparr>block_lines := Some lines\<rparr>) =
           (if collect_lines lines [] \<noteq> []
            then Some (join (asc '' '') (collect_lines lines [])) else None))"
proof (intro conjI iffI impI)
  show "extract_text_without_footnotes doc =
     join [10, 10]
       (concat (map (\<lambda>p. List.map_filter (block_result (page_height p)) (page_blocks p)) doc))"
    by (simp add: extract_text_without_footnotes_def extract_pages_eq)
next
  assume a: "\<forall>lines. block_result height (b\<lparr>block_lines := Some lines\<rparr>) = None"
  show "block_y_top b < header_limit height \<or> block_y_top b > footer_limit height"
  proof (rule ccontr)
    assume n: "\<not> (block_y_top b < header_limit height \<or> block_y_top b > footer_limit height)"
    from a have "block_result height (b\<lparr>block_lines := Some [[plain_span ''Body'' 12]]\<rparr>) = None"
      by blast
    with n show False
      by (simp add: block_result_def block_y_top_def collect_body del: collect_lines.simps)
  qed
next
  assume "block_y_top b < header_limit height \<or> block_y_top b > footer_limit height"
  then show "\<forall>lines. block_result height (b\<lparr>block_lines := Some lines\<rparr>) = None"
    by (auto simp: block_result_def block_y_top_def)
next
  assume "\<not> (block_y_top b < header_limit height \<or> block_y_top b > footer_limit height)"
  then show "block_result height (b\<lparr>block_lines := Some lines\<rparr>) =
      (if collect_lines lines [] \<noteq> [] then Some (join (asc '' '') (collect_lines lines [])) else None)"
    by (simp add: block_result_def block_y_top_def Let_def)
qed

theorem block_excluded_iff_witness:
  "block_y_top (body_block 5) < header_limit 100 \<and>
   \<not> (block_y_top (body_block 50) < header_limit 100 \<or>
      block_y_top (body_block 50) > footer_limit 100) \<and>
   extract_text_without_footnotes sample_doc = asc ''Body'' @ [10, 10] @ asc ''Body''"
proof -
  have h: "block_y_top (body_block 5) < header_limit 100 \<or>
      block_y_top (body_block 5) > footer_limit 100"
    by (simp add: body_block_def block_y_top_def header_limit_100)
  with block_excluded_iff [of "[]" 100 "body_block 5"]
  have "\<forall>lines. block_result 100 (body_block 5\<lparr>block_lines := Some lines\<rparr>) = None"
    by blast
  then have "block_result 100 (body_block 5\<lparr>block_lines := Some [[plain_span ''Body'' 12]]\<rparr>) = None"
    by blast
  then have r5: "block_result 100 (body_block 5) = None"
    by (simp add: body_block_def)
  have n: "\<not> (block_y_top (body_block 50) < header_limit 100 \<or>
      block_y_top (body_block 50) > footer_limit 100)"
    by (simp add: body_block_def block_y_top_def header_limit_100 footer_limit_100)
  with block_excluded_iff [of "[]" 100 "body_block 50" "[[plain_span ''Body'' 12]]"]
  have "block_result 100 (body_block 50\<lparr>block_lines := Some [[plain_span ''Body'' 12]]\<rparr>) =
      Some (asc ''Body'')"
    by (simp add: collect_body del: collect_lines.simps)
  then have r50: "block_result 100 (body_block 50) = Some (asc ''Body'')"
    by (simp add: body_block_def)
  have r90: "block_result 100 (body_block 90) = None"
    by (simp add: block_result_def body_block_def block_y_top_def header_limit_100
        footer_limit_100)
  have r43: "block_result 43 (body_block (4841369599423283 / 1125899906842624)) =
      Some (asc ''Body'')"
    by (simp add: block_result_def body_block_def block_y_top_def header_limit_43
        footer_limit_43 collect_body del: collect_lines.simps)
  from block_excluded_iff [of sample_doc 100 "body_block 5"]
  have "extract_text_without_footnotes sample_doc =
      join [10, 10]
       (concat (map (\<lambda>p. List.map_filter (block_result (page_height p)) (page_blocks p))
          sample_doc))"
    by blast
  then have "extract_text_without_footnotes sample_doc = asc ''Body'' @ [10, 10] @ asc ''Body''"
    by (simp add: sample_doc_def List.map_filter_simps r5 r50 r90 r43)
  with h n show ?thesis
    by (simp add: body_block_def block_y_top_def header_limit_100)
qed

text \<open>
  C1 (as stated) fails on the boundary: on a page of height 100 the product
  \<^verbatim>\<open>page_height * 0.10\<close> is 10, and a block whose top edge is exactly 10 is not
  dropped; its text is the extractor's output.
\<close>

theorem block_on_header_boundary_retained:
  "block_y_top (body_block 10) = header_limit 100 \<and>
   extract_text_without_footnotes boundary_doc = asc ''Body''"
proof -
  have "block_result 100 (body_block 10) = Some (asc ''Body'')"
    by (simp add: block_result_def body_block_def block_y_top_def header_limit_100
        footer_limit_100 collect_body del: collect_lines.simps)
  then show ?thesis
    by (simp add: extract_text_without_footnotes_def extract_pages_eq boundary_doc_def
        List.map_filter_simps body_block_def block_y_top_def header_limit_100)
qed

text \<open>
  C2. Line assembly appends the text of every span except those whose stripped text is
  all digits and for which the font size is below 8, or flag bit 0 is set, or the
  stripped text is all digits and the font size is below 10. So a span \<open>3\<close> of size 7 is
  left out and a span \<open>Article\<close> of size 7 is kept.
\<close>

theorem span_omitted_iff:
  "assemble_line spans acc = acc @ concat (map span_text
      (filter (\<lambda>sp. \<not> (isdigit (strip (span_text sp)) \<and>
          (span_size sp < 8 \<or> span_flags sp AND 1 \<noteq> 0 \<or>
           (isdigit (strip (span_text sp)) \<and> span_size sp < 10)))) spans))"
proof -
  have "(\<lambda>sp. \<not> (is_superscript sp \<and> isdigit (strip (span_text sp)))) =
        (\<lambda>sp. \<not> (isdigit (strip (span_text sp)) \<and>
          (span_size sp < 8 \<or> span_flags sp AND 1 \<noteq> 0 \<or>
           (isdigit (strip (span_text sp)) \<and> span_size sp < 10))))"
    by (auto simp: is_superscript_def)
  then show ?thesis
    using assemble_line_filter [of spans acc] by simp
qed

theorem span_omitted_iff_witness:
  "assemble_line [plain_span ''See '' 12, plain_span ''3'' 7, plain_span ''Article'' 7] [] =
     asc ''See Article''"
  using span_omitted_iff
    [of "[plain_span ''See '' 12, plain_span ''3'' 7, plain_span ''Article'' 7]" "[]"]
  by (simp add: plain_span_def char_class_defs del: assemble_line.simps)

text \<open>
  C6. A line whose stripped text is all digits and at most three characters long is
  discarded; an all-digit stripped line of four or more characters is appended to the
  block's line texts. In particular the line \<open>42\<close> is dropped.
\<close>

theorem page_number_rule:
  assumes "stripped = strip (assemble_line line [])"
  shows "(isdigit stripped \<and> length stripped \<le> 3 \<longrightarrow>
            collect_lines (line # lines) acc = collect_lines lines acc) \<and>
         (isdigit stripped \<and> 4 \<le> length stripped \<longrightarrow>
            collect_lines (line # lines) acc = collect_lines lines (acc @ [stripped])) \<and>
         (stripped = asc ''42'' \<longrightarrow>
            collect_lines (line # lines) acc = collect_lines lines acc)"
proof -
  have d: "isdigit (asc ''42'')" "length (asc ''42'') \<le> 3"
    by (simp_all add: char_class_defs)
  have ne: "isdigit stripped \<Longrightarrow> stripped \<noteq> []"
    by (simp add: isdigit_def)
  show ?thesis
    using assms d ne by (auto simp: Let_def)
qed

theorem page_number_rule_witness:
  "collect_lines [[plain_span '' 42 '' 12], [plain_span ''2018'' 12]] [] = [asc ''2018'']"
proof -
  have s1: "asc ''42'' = strip (assemble_line [plain_span '' 42 '' 12] [])"
    by (simp add: plain_span_def is_superscript_def char_class_defs)
  have s2: "asc ''2018'' = strip (assemble_line [plain_span ''2018'' 12] [])"
    by (simp add: plain_span_def is_superscript_def char_class_defs)
  have d: "isdigit (asc ''2018'')" "4 \<le> length (asc ''2018'')"
    by (simp_all add: char_class_defs)
  from page_number_rule [OF s1, of "[[plain_span ''2018'' 12]]" "[]"]
  have "collect_lines [[plain_span '' 42 '' 12], [plain_span ''2018'' 12]] [] =
      collect_lines [[plain_span ''2018'' 12]] []"
    by blast
  also from page_number_rule [OF s2, of "[]" "[]"] d
  have "collect_lines [[plain_span ''2018'' 12]] [] = collect_lines [] ([] @ [asc ''2018''])"
    by blast
  finally show ?thesis by simp
qed

section \<open>Properties of the normalizer\<close>

subsection \<open>Matches stay inside the text\<close>

lemma rmatch_bound: "(n, c) \<in> set (rmatch r b s) \<Longrightarrow> n \<le> length s"
proof (induction r arbitrary: b s n c)
  case (Rep a lo hi)
  have "length (takeWhile (atom_ok a) s) \<le> length s"
    by (rule length_takeWhile_le)
  with Rep show ?case
    by (auto simp: Let_def split: option.splits)
next
  case (Seq r1 r2)
  then obtain n1 c1 n2 c2 where
    a: "(n1, c1) \<in> set (rmatch r1 b s)" and
    b: "(n2, c2) \<in> set (rmatch r2 (rev (take n1 s) @ b) (drop n1 s))" and
    n: "n = n1 + n2"
    by auto
  from Seq.IH(1) [OF a] Seq.IH(2) [OF b] n show ?case
    by simp
next
  case (Ahead r)
  then show ?case
    by (auto split: list.splits)
qed (auto split: list.splits if_splits)

lemma rmatch_captures: "(n, c) \<in> set (rmatch r b s) \<Longrightarrow> (k, g) \<in> set c \<Longrightarrow> set g \<subseteq> set s"
proof (induction r arbitrary: b s n c)
  case (Seq r1 r2)
  then obtain n1 c1 n2 c2 where
    a: "(n1, c1) \<in> set (rmatch r1 b s)" and
    b: "(n2, c2) \<in> set (rmatch r2 (rev (take n1 s) @ b) (drop n1 s))" and
    c: "c = c1 @ c2"
    by auto
  from Seq.prems(2) c consider "(k, g) \<in> set c1" | "(k, g) \<in> set c2"
    by auto
  then show ?case
  proof cases
    case 1
    with Seq.IH(1) [OF a] show ?thesis .
  next
    case 2
    with Seq.IH(2) [OF b] have "set g \<subseteq> set (drop n1 s)" .
    then show ?thesis
      using set_drop_subset [of n1 s] by blast
  qed
next
  case (Group j r)
  then obtain c' where a: "(n, c') \<in> set (rmatch r b s)" and c: "c = c' @ [(j, take n s)]"
    by auto
  from Group.prems(2) c consider "(k, g) \<in> set c'" | "g = take n s"
    by auto
  then show ?case
  proof cases
    case 1
    with Group.IH [OF a] show ?thesis .
  next
    case 2
    then show ?thesis
      using set_take_subset [of n s] by simp
  qed
next
  case (Ahead r)
  then obtain m ms where a: "rmatch r b s = (m, c) # ms"
    by (cases "rmatch r b s") auto
  then have "(m, c) \<in> set (rmatch r b s)"
    by simp
  from Ahead.IH [OF this Ahead.prems(2)] show ?case .
next
  case (Alt r1 r2)
  from Alt.prems(1) consider "(n, c) \<in> set (rmatch r1 b s)" | "(n, c) \<in> set (rmatch r2 b s)"
    by auto
  then show ?case
    using Alt.IH Alt.prems(2) by cases blast+
next
  case (Opt r)
  from Opt.prems consider "(n, c) \<in> set (rmatch r b s)" | "c = []"
    by auto
  then show ?case
    using Opt.IH Opt.prems(2) by cases auto
qed (auto split: list.splits if_splits simp: Let_def)

lemma first_match_in: "first_match r b s adv = Some (n, c) \<Longrightarrow> (n, c) \<in> set (rmatch r b s)"
proof -
  assume a: "first_match r b s adv = Some (n, c)"
  show ?thesis
  proof (cases adv)
    case True
    with a obtain ms where "filter (\<lambda>(n, c). 0 < n) (rmatch r b s) = (n, c) # ms"
      by (auto simp: first_match_def split: list.splits)
    then have "(n, c) \<in> set (filter (\<lambda>(n, c). 0 < n) (rmatch r b s))"
      by simp
    then show ?thesis by simp
  next
    case False
    with a obtain ms where "rmatch r b s = (n, c) # ms"
      by (auto simp: first_match_def split: list.splits)
    then show ?thesis by simp
  qed
qed

lemma expand_chars:
  "(\<And>k g. (k, g) \<in> set c \<Longrightarrow> set g \<subseteq> A) \<Longrightarrow> set (expand t c) \<subseteq> A \<union> template_chars t"
proof (induction t c rule: expand.induct)
  case (3 k ps c)
  have "set (case map_of (rev c) k of None \<Rightarrow> [] | Some g \<Rightarrow> g) \<subseteq> A"
  proof (cases "map_of (rev c) k")
    case None
    then show ?thesis by simp
  next
    case (Some g)
    then have "(k, g) \<in> set c"
      using map_of_SomeD by fastforce
    with 3 Some show ?thesis by auto
  qed
  with 3 show ?case by auto
qed auto

lemma sub_from_chars: "set (sub_from r t b s adv) \<subseteq> set s \<union> template_chars t"
proof (induction r t b s adv rule: sub_from.induct)
  case (1 r t b s adv)
  show ?case
  proof (cases "first_match r b s adv")
    case None
    show ?thesis
    proof (cases s)
      case Nil
      with None show ?thesis by (simp add: sub_from.simps)
    next
      case (Cons x xs)
      with None 1(1) [OF None Cons] show ?thesis
        by (subst sub_from.simps) auto
    qed
  next
    case (Some m)
    obtain n c where m: "m = (n, c)" by (cases m)
    from Some m have "(n, c) \<in> set (rmatch r b s)"
      by (simp add: first_match_in)
    then have "\<And>k g. (k, g) \<in> set c \<Longrightarrow> set g \<subseteq> set s"
      by (rule rmatch_captures)
    then have e: "set (expand t c) \<subseteq> set s \<union> template_chars t"
      by (rule expand_chars)
    show ?thesis
    proof (cases "n = 0")
      case True
      with Some m 1(2) [OF Some m [symmetric] True] e show ?thesis
        by (subst sub_from.simps) auto
    next
      case False
      have "set (drop n s) \<subseteq> set s" by (rule set_drop_subset)
      with False Some m 1(3) [OF Some m [symmetric] False] e show ?thesis
        by (subst sub_from.simps) auto
    qed
  qed
qed

subsection \<open>The normalizer as a chain of scans\<close>

lemma re_sub_no_refs:
  "list_all (\<lambda>p. case p of Ref k \<Rightarrow> k \<in> set (groups_of r) | Text _ \<Rightarrow> True) t
     \<Longrightarrow> re_sub r t s = Inr (sub_from r t [] s False)"
proof -
  assume a: "list_all (\<lambda>p. case p of Ref k \<Rightarrow> k \<in> set (groups_of r) | Text _ \<Rightarrow> True) t"
  have "find (\<lambda>p. case p of Ref k \<Rightarrow> k \<notin> set (groups_of r) | Text _ \<Rightarrow> False) t = None"
    unfolding find_None_iff
  proof
    assume "\<exists>x. x \<in> set t \<and> (case x of Text x \<Rightarrow> False | Ref k \<Rightarrow> k \<notin> set (groups_of r))"
    then obtain p where "p \<in> set t" "case p of Text x \<Rightarrow> False | Ref k \<Rightarrow> k \<notin> set (groups_of r)"
      by blast
    with a show False
      by (cases p) (auto simp: list_all_iff)
  qed
  then show ?thesis
    by (simp add: re_sub_def)
qed

lemma marker_groups: "1 \<in> set (groups_of marker_pattern)"
  by (simp add: marker_pattern_def)

lemma clean_text_eq:
  "clean_text s = Inr (strip (drop_blank_paragraphs (collapse_breaks (collapse_spaces
     (sub_from marker_pattern marker_template []
       (sub_from suffix_digits_pattern [] []
         (sub_from citation_pattern [] []
           (sub_from amendment_pattern [] []
             (sub_from see_pattern [] [] (remove_superscripts s) False) False) False) False)
       False)))))"
proof -
  have m: "re_sub marker_pattern marker_template x = Inr (sub_from marker_pattern marker_template [] x False)"
    for x
    by (rule re_sub_no_refs) (simp add: marker_template_def marker_pattern_def)
  show ?thesis
    by (simp add: clean_text_def bind_def re_sub_no_refs m
        collapse_spaces_def collapse_breaks_def drop_blank_paragraphs_def)
qed

lemma sub_from_behind_irrelevant:
  "(\<And>b s adv. first_match r b s adv = first_match r [] s adv)
     \<Longrightarrow> sub_from r t b s adv = sub_from r t b' s adv"
proof (induction r t b s adv arbitrary: b' rule: sub_from.induct)
  case (1 r t b s adv)
  have fm: "first_match r b s adv = first_match r b' s adv"
    using "1.prems" [of b s adv] "1.prems" [of b' s adv] by simp
  show ?case
  proof (cases "first_match r b s adv")
    case None
    show ?thesis
    proof (cases s)
      case Nil
      with None fm show ?thesis
        by (simp add: sub_from.simps [of r t b] sub_from.simps [of r t b'])
    next
      case (Cons x xs)
      from "1.IH"(1) [OF None Cons "1.prems", of "x # b'"] None fm Cons show ?thesis
        by (simp add: sub_from.simps [of r t b "x # xs"] sub_from.simps [of r t b' "x # xs"])
    qed
  next
    case (Some m)
    obtain n c where m: "m = (n, c)" by (cases m)
    show ?thesis
    proof (cases "n = 0")
      case True
      from "1.IH"(2) [OF Some m [symmetric] True "1.prems", of b'] Some fm m True show ?thesis
        by (simp add: sub_from.simps [of r t b s adv] sub_from.simps [of r t b' s adv])
    next
      case False
      from "1.IH"(3) [OF Some m [symmetric] False "1.prems", of "rev (take n s) @ b'"]
        Some fm m False show ?thesis
        by (simp add: sub_from.simps [of r t b s adv] sub_from.simps [of r t b' s adv])
    qed
  qed
qed

lemma rev_upt_Suc: "rev [lo..<Suc m] = (if lo \<le> m then m # rev [lo..<m] else [])"
  by simp

lemma atom_ok_Lit: "atom_ok (Lit c) = (\<lambda>x. x = c)"
  by (rule ext) simp

lemma atom_ok_Spaces: "atom_ok (In [Spaces]) = isspace"
  by (rule ext) simp

lemma atom_ok_Digits: "atom_ok (In [Digits]) = isdecimal"
  by (rule ext) simp

lemma fm_spaces:
  "first_match spaces_pattern b s adv =
     (if 1 \<le> length (takeWhile (\<lambda>x. x = 32) s) then Some (length (takeWhile (\<lambda>x. x = 32) s), [])
      else None)"
  by (simp add: first_match_def spaces_pattern_def atom_ok_Lit Let_def del: upt_Suc)
     (simp add: rev_upt_Suc)

lemma fm_breaks:
  "first_match breaks_pattern b s adv =
     (if 3 \<le> length (takeWhile (\<lambda>x. x = 10) s) then Some (length (takeWhile (\<lambda>x. x = 10) s), [])
      else None)"
  by (simp add: first_match_def breaks_pattern_def atom_ok_Lit Let_def del: upt_Suc)
     (simp add: rev_upt_Suc)

subsection \<open>Runs of spaces\<close>

lemma sub_from_step:
  assumes "\<And>n c. first_match r b s adv = Some (n, c) \<Longrightarrow> 0 < n"
  shows "sub_from r t b s adv =
     (case first_match r b s adv of
        None \<Rightarrow> (case s of [] \<Rightarrow> [] | x # xs \<Rightarrow> x # sub_from r t (x # b) xs False)
      | Some (n, c) \<Rightarrow> expand t c @ sub_from r t (rev (take n s) @ b) (drop n s) False)"
proof (cases "first_match r b s adv")
  case None
  then show ?thesis
    by (subst sub_from.simps) simp
next
  case (Some m)
  obtain n c where m: "m = (n, c)" by (cases m)
  with Some assms have "0 < n" by simp
  with Some m show ?thesis
    by (subst sub_from.simps) simp
qed

lemma dropWhile_eq_drop_len: "drop (length (takeWhile P xs)) xs = dropWhile P xs"
  by (simp add: dropWhile_eq_drop)

lemma collapse_spaces_Nil: "collapse_spaces [] = []"
  unfolding collapse_spaces_def
  by (subst sub_from_step) (auto simp: fm_spaces)

lemma collapse_spaces_Cons:
  "collapse_spaces (x # xs) =
     (if x = 32 then 32 # collapse_spaces (dropWhile (\<lambda>c. c = 32) xs) else x # collapse_spaces xs)"
proof -
  have "sub_from spaces_pattern [Text [32]] [] (x # xs) False =
      (if x = 32
       then 32 # sub_from spaces_pattern [Text [32]]
                   (rev (take (length (takeWhile (\<lambda>c. c = 32) (x # xs))) (x # xs)) @ [])
                   (drop (length (takeWhile (\<lambda>c. c = 32) (x # xs))) (x # xs)) False
       else x # sub_from spaces_pattern [Text [32]] [x] xs False)"
    by (subst sub_from_step) (auto simp: fm_spaces split: if_splits)
  also have "drop (length (takeWhile (\<lambda>c. c = 32) (x # xs))) (x # xs) =
      dropWhile (\<lambda>c. c = 32) (x # xs)"
    by (rule dropWhile_eq_drop_len)
  finally have step: "sub_from spaces_pattern [Text [32]] [] (x # xs) False =
      (if x = 32
       then 32 # sub_from spaces_pattern [Text [32]]
                   (rev (take (length (takeWhile (\<lambda>c. c = 32) (x # xs))) (x # xs)) @ [])
                   (dropWhile (\<lambda>c. c = 32) (x # xs)) False
       else x # sub_from spaces_pattern [Text [32]] [x] xs False)" .
  have irr: "sub_from spaces_pattern [Text [32]] b s False =
      sub_from spaces_pattern [Text [32]] [] s False" for b s
    by (rule sub_from_behind_irrelevant) (simp add: fm_spaces)
  show ?thesis
    unfolding collapse_spaces_def
    by (subst step) (simp add: irr [of "_ # _"] irr [of "_ @ _"])
qed

lemma collapse_spaces_hd: "\<exists>ys. collapse_spaces (x # xs) = x # ys"
  by (simp add: collapse_spaces_Cons)

lemma prefix2: "prefix [a, b] s \<longleftrightarrow> (\<exists>u. s = a # b # u)"
  by (auto simp: prefix_def)

lemma prefix3: "prefix [a, b, c] s \<longleftrightarrow> (\<exists>u. s = a # b # c # u)"
  by (auto simp: prefix_def)

lemma sublist_suffix_trans: "sublist p u \<Longrightarrow> suffix u s \<Longrightarrow> sublist p s"
  by (meson sublist_order.order_trans suffix_imp_sublist)

lemma suffix_dropWhile_Cons: "suffix (dropWhile P xs) (x # xs)"
  by (meson suffix_ConsI suffix_dropWhile)

lemma length_dropWhile_less: "length (dropWhile P xs) < Suc (length xs)"
  by (simp add: length_dropWhile_le less_Suc_eq_le)

lemma collapse_spaces_no_double: "\<not> sublist [32, 32] (collapse_spaces s)"
proof (induction "length s" arbitrary: s rule: less_induct)
  case less
  show ?case
  proof (cases s)
    case Nil
    then show ?thesis by (simp add: collapse_spaces_Nil)
  next
    case (Cons x xs)
    show ?thesis
    proof (cases "x = 32")
      case True
      let ?d = "dropWhile (\<lambda>c. c = 32) xs"
      have ih: "\<not> sublist [32, 32] (collapse_spaces ?d)"
        using less [of ?d] Cons length_dropWhile_less [of "\<lambda>c. c = 32" xs] by simp
      have "\<not> prefix [32] (collapse_spaces ?d)"
      proof (cases ?d)
        case Nil
        then have "collapse_spaces ?d = []"
          by (simp only: collapse_spaces_Nil)
        then show ?thesis by simp
      next
        case (Cons y ys)
        then have "y \<noteq> 32"
          using hd_dropWhile [of "\<lambda>c. c = 32" xs] by auto
        with Cons show ?thesis
          by (auto simp: collapse_spaces_Cons)
      qed
      then have "\<not> prefix [32, 32] (32 # collapse_spaces ?d)"
        by (auto simp: prefix_def)
      with ih True Cons show ?thesis
        by (simp add: collapse_spaces_Cons sublist_Cons_right)
    next
      case False
      with less [of xs] Cons show ?thesis
        by (simp add: collapse_spaces_Cons sublist_Cons_right)
    qed
  qed
qed

lemma collapse_spaces_id: "\<not> sublist [32, 32] s \<Longrightarrow> collapse_spaces s = s"
proof (induction s)
  case Nil
  show ?case by (simp add: collapse_spaces_Nil)
next
  case (Cons x xs)
  from Cons.prems have t: "\<not> sublist [32, 32] xs" and p: "\<not> prefix [32, 32] (x # xs)"
    by (simp_all add: sublist_Cons_right)
  show ?case
  proof (cases "x = 32")
    case True
    with p have "dropWhile (\<lambda>c. c = 32) xs = xs"
      by (cases xs) auto
    with True Cons.IH [OF t] show ?thesis
      by (simp add: collapse_spaces_Cons)
  next
    case False
    with Cons.IH [OF t] show ?thesis
      by (simp add: collapse_spaces_Cons)
  qed
qed

subsection \<open>Runs of line breaks\<close>

lemma lead3_iff: "3 \<le> length (takeWhile (\<lambda>c. c = (10::nat)) s) \<longleftrightarrow> prefix [10, 10, 10] s"
proof (cases s)
  case Nil
  then show ?thesis by simp
next
  case s1: (Cons a s1)
  show ?thesis
  proof (cases s1)
    case Nil
    with s1 show ?thesis by simp
  next
    case s2: (Cons b s2)
    show ?thesis
    proof (cases s2)
      case Nil
      with s1 s2 show ?thesis by simp
    next
      case (Cons c s3)
      with s1 s2 show ?thesis by simp
    qed
  qed
qed

lemma collapse_breaks_Nil: "collapse_breaks [] = []"
  unfolding collapse_breaks_def
  by (subst sub_from_step) (auto simp: fm_breaks)

lemma collapse_breaks_Cons:
  "collapse_breaks (x # xs) =
     (if prefix [10, 10, 10] (x # xs)
      then 10 # 10 # collapse_breaks (dropWhile (\<lambda>c. c = 10) (x # xs))
      else x # collapse_breaks xs)"
proof -
  have "sub_from breaks_pattern [Text [10, 10]] [] (x # xs) False =
      (if 3 \<le> length (takeWhile (\<lambda>c. c = 10) (x # xs))
       then 10 # 10 # sub_from breaks_pattern [Text [10, 10]]
                   (rev (take (length (takeWhile (\<lambda>c. c = 10) (x # xs))) (x # xs)) @ [])
                   (drop (length (takeWhile (\<lambda>c. c = 10) (x # xs))) (x # xs)) False
       else x # sub_from breaks_pattern [Text [10, 10]] [x] xs False)"
    by (subst sub_from_step) (auto simp: fm_breaks split: if_splits)
  also have "drop (length (takeWhile (\<lambda>c. c = 10) (x # xs))) (x # xs) =
      dropWhile (\<lambda>c. c = 10) (x # xs)"
    by (rule dropWhile_eq_drop_len)
  finally have step: "sub_from breaks_pattern [Text [10, 10]] [] (x # xs) False =
      (if 3 \<le> length (takeWhile (\<lambda>c. c = 10) (x # xs))
       then 10 # 10 # sub_from breaks_pattern [Text [10, 10]]
                   (rev (take (length (takeWhile (\<lambda>c. c = 10) (x # xs))) (x # xs)) @ [])
                   (dropWhile (\<lambda>c. c = 10) (x # xs)) False
       else x # sub_from breaks_pattern [Text [10, 10]] [x] xs False)" .
  have irr: "sub_from breaks_pattern [Text [10, 10]] b s False =
      sub_from breaks_pattern [Text [10, 10]] [] s False" for b s
    by (rule sub_from_behind_irrelevant) (simp add: fm_breaks)
  show ?thesis
    unfolding collapse_breaks_def
    by (subst step) (simp only: irr [of "_ # _"] irr [of "_ @ _"] lead3_iff)
qed

lemma collapse_breaks_match:
  "prefix [10, 10, 10] (x # xs) \<Longrightarrow>
     collapse_breaks (x # xs) = 10 # 10 # collapse_breaks (dropWhile (\<lambda>c. c = 10) (x # xs))"
  by (simp only: collapse_breaks_Cons if_True)

lemma collapse_breaks_copy:
  "\<not> prefix [10, 10, 10] (x # xs) \<Longrightarrow> collapse_breaks (x # xs) = x # collapse_breaks xs"
  by (simp only: collapse_breaks_Cons if_False)

lemma collapse_breaks_hd: "\<exists>ys. collapse_breaks (x # xs) = x # ys"
  by (auto simp: collapse_breaks_Cons prefix3)

lemma not_prefix1_dropWhile:
  assumes "\<And>y ys. \<exists>zs. f (y # ys) = y # zs" and "f [] = []"
  shows "\<not> prefix [a] (f (dropWhile (\<lambda>c. c = a) s))"
proof (cases "dropWhile (\<lambda>c. c = a) s")
  case Nil
  have "f (dropWhile (\<lambda>c. c = a) s) = []"
    by (simp only: Nil assms(2))
  then show ?thesis by simp
next
  case (Cons y ys)
  then have "y \<noteq> a"
    using hd_dropWhile [of "\<lambda>c. c = a" s] by auto
  moreover from assms(1) [of y ys] obtain zs where "f (y # ys) = y # zs"
    by blast
  ultimately show ?thesis
    using Cons by simp
qed

lemma collapse_breaks_prefix2:
  "prefix [10, 10] (collapse_breaks s) \<Longrightarrow> prefix [10, 10] s"
proof -
  assume a: "prefix [10, 10] (collapse_breaks s)"
  show ?thesis
  proof (cases s)
    case Nil
    with a show ?thesis by (simp add: collapse_breaks_Nil)
  next
    case (Cons x xs)
    show ?thesis
    proof (cases "prefix [10, 10, 10] (x # xs)")
      case True
      with Cons show ?thesis by (auto simp: prefix_def)
    next
      case False
      with a Cons have x: "x = 10" and p: "prefix [10] (collapse_breaks xs)"
        by (auto simp: collapse_breaks_Cons prefix_def)
      from p have "xs \<noteq> []"
        by (auto simp: collapse_breaks_Nil)
      then obtain y ys where xs: "xs = y # ys"
        by (cases xs) auto
      with collapse_breaks_hd [of y ys] p have "y = 10"
        by auto
      with x xs Cons show ?thesis
        by simp
    qed
  qed
qed

lemma dropWhile_shorter: "P x \<Longrightarrow> length (dropWhile P (x # xs)) < length (x # xs)"
  using length_dropWhile_le [of P xs] by simp

lemma collapse_breaks_no_triple: "\<not> sublist [10, 10, 10] (collapse_breaks s)"
proof (induction "length s" arbitrary: s rule: less_induct)
  case less
  show ?case
  proof (cases s)
    case Nil
    then show ?thesis by (simp add: collapse_breaks_Nil)
  next
    case (Cons x xs)
    show ?thesis
    proof (cases "prefix [10, 10, 10] (x # xs)")
      case True
      let ?d = "dropWhile (\<lambda>c. c = 10) (x # xs)"
      from True have x: "x = 10" by (simp add: prefix3)
      have ih: "\<not> sublist [10, 10, 10] (collapse_breaks ?d)"
        using less [of ?d] Cons dropWhile_shorter [of "\<lambda>c. c = 10" x xs] x by simp
      have np: "\<not> prefix [10] (collapse_breaks ?d)"
        by (rule not_prefix1_dropWhile) (simp_all add: collapse_breaks_hd collapse_breaks_Nil)
      then have "\<not> prefix [10, 10, 10] (10 # 10 # collapse_breaks ?d)"
        and "\<not> prefix [10, 10, 10] (10 # collapse_breaks ?d)"
        by (auto simp: prefix_def)
      with ih show ?thesis
        unfolding Cons collapse_breaks_match [OF True]
        by (simp only: sublist_Cons_right simp_thms)
    next
      case False
      have "\<not> prefix [10, 10, 10] (x # collapse_breaks xs)"
      proof
        assume "prefix [10, 10, 10] (x # collapse_breaks xs)"
        then have x: "x = 10" and "prefix [10, 10] (collapse_breaks xs)"
          by (auto simp: prefix_def)
        then have "prefix [10, 10] xs"
          by (simp add: collapse_breaks_prefix2)
        with x False show False
          by (auto simp: prefix_def)
      qed
      moreover have "\<not> sublist [10, 10, 10] (collapse_breaks xs)"
        using less [of xs] Cons by simp
      ultimately show ?thesis
        unfolding Cons collapse_breaks_copy [OF False]
        by (simp only: sublist_Cons_right simp_thms)
    qed
  qed
qed

lemma collapse_breaks_id: "\<not> sublist [10, 10, 10] s \<Longrightarrow> collapse_breaks s = s"
proof (induction s)
  case Nil
  show ?case by (simp add: collapse_breaks_Nil)
next
  case (Cons x xs)
  from Cons.prems have t: "\<not> sublist [10, 10, 10] xs" and p: "\<not> prefix [10, 10, 10] (x # xs)"
    by (simp_all add: sublist_Cons_right)
  show ?case
    using collapse_breaks_copy [OF p] Cons.IH [OF t] by simp
qed

lemma collapse_breaks_no_double:
  "\<not> sublist [32, 32] s \<Longrightarrow> \<not> sublist [32, 32] (collapse_breaks s)"
proof (induction "length s" arbitrary: s rule: less_induct)
  case less
  show ?case
  proof (cases s)
    case Nil
    then show ?thesis by (simp add: collapse_breaks_Nil)
  next
    case (Cons x xs)
    show ?thesis
    proof (cases "prefix [10, 10, 10] (x # xs)")
      case True
      let ?d = "dropWhile (\<lambda>c. c = 10) (x # xs)"
      from True have x: "x = 10" by (simp add: prefix3)
      have "suffix ?d s"
        unfolding Cons by (rule suffix_dropWhile)
      with less.prems have "\<not> sublist [32, 32] ?d"
        using sublist_suffix_trans by blast
      then have ih: "\<not> sublist [32, 32] (collapse_breaks ?d)"
        using less(1) [of ?d] Cons dropWhile_shorter [of "\<lambda>c. c = 10" x xs] x by simp
      have "\<not> prefix [32, 32] (10 # 10 # collapse_breaks ?d)"
        and "\<not> prefix [32, 32] (10 # collapse_breaks ?d)"
        by (auto simp: prefix_def)
      with ih show ?thesis
        unfolding Cons collapse_breaks_match [OF True]
        by (simp only: sublist_Cons_right simp_thms)
    next
      case False
      from less.prems Cons have t: "\<not> sublist [32, 32] xs" and p: "\<not> prefix [32, 32] (x # xs)"
        by (simp_all add: sublist_Cons_right)
      have "\<not> prefix [32, 32] (x # collapse_breaks xs)"
      proof
        assume a: "prefix [32, 32] (x # collapse_breaks xs)"
        then have x: "x = 32" and q: "prefix [32] (collapse_breaks xs)"
          by (auto simp: prefix_def)
        from q have "xs \<noteq> []"
          by (auto simp: collapse_breaks_Nil)
        then obtain y ys where xs: "xs = y # ys"
          by (cases xs) auto
        with collapse_breaks_hd [of y ys] q have "y = 32"
          by auto
        with x xs p show False
          by simp
      qed
      moreover have "\<not> sublist [32, 32] (collapse_breaks xs)"
        using less(1) [of xs] t Cons by simp
      ultimately show ?thesis
        unfolding Cons collapse_breaks_copy [OF False]
        by (simp only: sublist_Cons_right simp_thms)
    qed
  qed
qed

subsection \<open>The blank-paragraph pattern\<close>

lemma isspace_10: "isspace 10"
  by (simp add: isspace_def in_ranges_def whitespace_ranges_def)

lemma isspace_32: "isspace 32"
  by (simp add: isspace_def in_ranges_def whitespace_ranges_def)

lemma rmatch_Seq_Lit:
  "rmatch (Seq (Atom (Lit c)) r) b s =
     (case s of [] \<Rightarrow> []
      | x # xs \<Rightarrow> if x = c then map (\<lambda>(n, cs). (Suc n, cs)) (rmatch r (x # b) xs) else [])"
  by (cases s) (auto simp: case_prod_unfold)

lemma rmatch_Seq_Rep0:
  "rmatch (Seq (Rep a 0 None) r) b s =
     concat (map (\<lambda>k. map (\<lambda>(n2, c2). (k + n2, c2)) (rmatch r (rev (take k s) @ b) (drop k s)))
       (rev [0..<Suc (length (takeWhile (atom_ok a) s))]))"
  by (simp add: Let_def comp_def rev_map [symmetric] del: upt_Suc)

lemma rmatch_tail2:
  "rmatch (Seq (Atom (Lit 10)) (Seq (Atom (Lit 10)) Eps)) b u =
     (if prefix [10, 10] u then [(2, [])] else [])"
proof (cases u)
  case Nil
  then show ?thesis by simp
next
  case u1: (Cons x u1)
  show ?thesis
  proof (cases u1)
    case Nil
    with u1 show ?thesis by simp
  next
    case (Cons y u2)
    with u1 show ?thesis by simp
  qed
qed

lemma concat_map_if: "concat (map (\<lambda>k. if P k then [f k] else []) xs) = map f (filter P xs)"
  by (induction xs) auto

lemma rmatch_mid:
  "rmatch (Seq (Rep (In [Spaces]) 0 None) (Seq (Atom (Lit 10)) (Seq (Atom (Lit 10)) Eps))) b s =
     map (\<lambda>k. (k + 2, []))
       (filter (\<lambda>k. prefix [10, 10] (drop k s)) (rev [0..<Suc (length (takeWhile isspace s))]))"
proof -
  have "(\<lambda>k. map (\<lambda>(n2, c2). (k + n2, c2))
          (if prefix [10, 10] (drop k s) then [(2, [])] else [])) =
        (\<lambda>k. if prefix [10, 10] (drop k s) then [(k + 2, []::captures)] else [])"
    by (rule ext) simp
  then show ?thesis
    by (simp only: rmatch_Seq_Rep0 rmatch_tail2 atom_ok_Spaces concat_map_if)
qed

lemma rev_upt_shift: "rev [0..<Suc (Suc m)] = map Suc (rev [0..<Suc m]) @ [0]"
proof -
  have "[0..<Suc (Suc m)] = 0 # [Suc 0..<Suc (Suc m)]"
    by (rule upt_conv_Cons) simp
  also have "[Suc 0..<Suc (Suc m)] = map Suc [0..<Suc m]"
    by (simp only: map_Suc_upt)
  finally show ?thesis
    by (simp only: rev.simps rev_map)
qed

lemma candidates_Cons:
  assumes "isspace x"
  shows "filter (\<lambda>k. prefix [10, 10] (drop k (x # xs)))
       (rev [0..<Suc (length (takeWhile isspace (x # xs)))]) =
     map Suc (filter (\<lambda>k. prefix [10, 10] (drop k xs))
       (rev [0..<Suc (length (takeWhile isspace xs))]))
     @ (if prefix [10, 10] (x # xs) then [0] else [])"
proof -
  let ?P = "\<lambda>k. prefix [10, 10] (drop k (x # xs))"
  let ?m = "length (takeWhile isspace xs)"
  have len: "length (takeWhile isspace (x # xs)) = Suc ?m"
    using assms by simp
  have c: "?P \<circ> Suc = (\<lambda>k. prefix [10, 10] (drop k xs))"
    by (rule ext) simp
  have "filter ?P (rev [0..<Suc (Suc ?m)]) = filter ?P (map Suc (rev [0..<Suc ?m]) @ [0])"
    by (simp only: rev_upt_shift)
  also have "\<dots> = map Suc (filter (?P \<circ> Suc) (rev [0..<Suc ?m])) @ filter ?P [0]"
    by (simp only: filter_append filter_map)
  also have "filter ?P [0] = (if prefix [10, 10] (x # xs) then [0] else [])"
    by simp
  finally show ?thesis
    by (simp only: len c)
qed

lemma candidates_first:
  "(case filter (\<lambda>k. prefix [10, 10] (drop k s)) (rev [0..<Suc (length (takeWhile isspace s))]) of
      [] \<Rightarrow> None | k # _ \<Rightarrow> Some k) = last_break s"
proof (induction s)
  case Nil
  show ?case by simp
next
  case (Cons x xs)
  show ?case
  proof (cases "isspace x")
    case True
    show ?thesis
      unfolding candidates_Cons [OF True, of xs]
      using Cons True
      by (cases "filter (\<lambda>k. prefix [10, 10] (drop k xs))
                   (rev [0..<Suc (length (takeWhile isspace xs))])")
         (auto split: option.splits)
  next
    case False
    then have "x \<noteq> 10"
      using isspace_10 by auto
    with False show ?thesis
      by simp
  qed
qed

lemma fm_blank:
  "first_match blank_paragraph_pattern b s adv =
     (if prefix [10, 10] s then map_option (\<lambda>k. (k + 4, [])) (last_break (drop 2 s)) else None)"
proof (cases "prefix [10, 10] s")
  case False
  then have "rmatch blank_paragraph_pattern b s = []"
    by (cases s) (auto simp: blank_paragraph_pattern_def rmatch_Seq_Lit split: list.splits)
  with False show ?thesis
    by (simp add: first_match_def)
next
  case True
  then obtain u where s: "s = 10 # 10 # u"
    by (auto simp: prefix2)
  let ?c = "filter (\<lambda>k. prefix [10, 10] (drop k u)) (rev [0..<Suc (length (takeWhile isspace u))])"
  have r: "rmatch blank_paragraph_pattern b s = map (\<lambda>k. (k + 4, [])) ?c"
    unfolding blank_paragraph_pattern_def seq.simps s
    by (simp add: rmatch_Seq_Lit rmatch_mid comp_def del: rmatch.simps upt_Suc)
  have f: "filter (\<lambda>(n, c). 0 < n) (map (\<lambda>k. (k + 4, []::captures)) ?c) = map (\<lambda>k. (k + 4, [])) ?c"
    by (induction ?c) auto
  have "first_match blank_paragraph_pattern b s adv =
      (case ?c of [] \<Rightarrow> None | k # _ \<Rightarrow> Some (k + 4, []))"
    unfolding first_match_def r
    by (cases ?c) (auto simp: f split: list.splits)
  also have "\<dots> = map_option (\<lambda>k. (k + 4, [])) (case ?c of [] \<Rightarrow> None | k # _ \<Rightarrow> Some k)"
    by (cases ?c) auto
  finally show ?thesis
    using True s by (simp only: candidates_first) simp
qed

subsection \<open>Blank paragraphs: the scan\<close>

lemma last_break_Some:
  "last_break s = Some k \<Longrightarrow>
     list_all isspace (take k s) \<and> prefix [10, 10] (drop k s) \<and>
     last_break (drop (k + 2) s) = None \<and> \<not> prefix [10] (drop (k + 2) s)"
proof (induction s arbitrary: k)
  case Nil
  then show ?case by simp
next
  case (Cons x xs)
  from Cons.prems have sp: "isspace x"
    by (auto split: if_splits)
  show ?case
  proof (cases "last_break xs")
    case (Some j)
    with Cons.prems sp have k: "k = Suc j" by simp
    from Cons.IH [OF Some] sp show ?thesis
      unfolding k by simp
  next
    case None
    with Cons.prems sp have p: "prefix [10, 10] (x # xs)" and k: "k = 0"
      by (auto split: if_splits)
    from p obtain u where xs: "xs = 10 # u" and x: "x = 10"
      by (auto simp: prefix_def)
    from None xs have "last_break u = None \<and> \<not> prefix [10, 10] (10 # u)"
      by (auto simp: isspace_10 split: option.splits if_splits)
    with k p x xs show ?thesis
      by simp
  qed
qed

lemma last_break_found:
  "list_all isspace w \<Longrightarrow> last_break (w @ 10 # 10 # u) \<noteq> None"
  by (induction w) (auto simp: isspace_10 split: option.splits)

lemma last_break_iff:
  "last_break u \<noteq> None \<longleftrightarrow> (\<exists>w. list_all isspace w \<and> prefix (w @ [10, 10]) u)"
proof
  assume "last_break u \<noteq> None"
  then obtain k where k: "last_break u = Some k" by auto
  from last_break_Some [OF k] obtain v where v: "drop k u = 10 # 10 # v"
    and w: "list_all isspace (take k u)"
    by (auto simp: prefix2)
  have "u = take k u @ drop k u" by simp
  with v have "prefix (take k u @ [10, 10]) u"
    by (metis append.assoc append_Cons append_Nil prefixI)
  with w show "\<exists>w. list_all isspace w \<and> prefix (w @ [10, 10]) u"
    by blast
next
  assume "\<exists>w. list_all isspace w \<and> prefix (w @ [10, 10]) u"
  then obtain w v where "list_all isspace w" and "u = (w @ [10, 10]) @ v"
    by (auto simp: prefix_def)
  then show "last_break u \<noteq> None"
    using last_break_found [of w v] by simp
qed

lemma blank_at_iff:
  "blank_at t \<longleftrightarrow> (\<exists>w. list_all isspace w \<and> prefix ([10, 10] @ w @ [10, 10]) t)"
proof
  assume "blank_at t"
  then obtain u where t: "t = 10 # 10 # u" and lb: "last_break u \<noteq> None"
    by (auto simp: blank_at_def prefix_def)
  from lb obtain w where "list_all isspace w" "prefix (w @ [10, 10]) u"
    using last_break_iff [of u] by blast
  with t show "\<exists>w. list_all isspace w \<and> prefix ([10, 10] @ w @ [10, 10]) t"
    by auto
next
  assume "\<exists>w. list_all isspace w \<and> prefix ([10, 10] @ w @ [10, 10]) t"
  then obtain w where w: "list_all isspace w" and p: "prefix ([10, 10] @ w @ [10, 10]) t"
    by blast
  from p obtain u where t: "t = 10 # 10 # u" and "prefix (w @ [10, 10]) u"
    by (auto simp: prefix_def)
  with w have "last_break u \<noteq> None"
    using last_break_iff [of u] by blast
  with t show "blank_at t"
    by (simp add: blank_at_def)
qed

lemma irr_blank:
  "sub_from blank_paragraph_pattern [Text [10, 10]] b s False =
     sub_from blank_paragraph_pattern [Text [10, 10]] [] s False"
  by (rule sub_from_behind_irrelevant) (simp add: fm_blank)

lemma drop_blank_Nil: "drop_blank_paragraphs [] = []"
  unfolding drop_blank_paragraphs_def
  by (subst sub_from_step) (auto simp: fm_blank)

lemma drop_blank_copy:
  assumes "\<not> blank_at (x # xs)"
  shows "drop_blank_paragraphs (x # xs) = x # drop_blank_paragraphs xs"
proof -
  from assms have "first_match blank_paragraph_pattern [] (x # xs) False = None"
    by (auto simp: fm_blank blank_at_def)
  then have "sub_from blank_paragraph_pattern [Text [10, 10]] [] (x # xs) False =
      x # sub_from blank_paragraph_pattern [Text [10, 10]] [x] xs False"
    by (subst sub_from_step) auto
  then show ?thesis
    unfolding drop_blank_paragraphs_def
    by (simp only: irr_blank [of "[x]"])
qed

lemma drop_blank_match:
  assumes "prefix [10, 10] s" and "last_break (drop 2 s) = Some k"
  shows "drop_blank_paragraphs s = 10 # 10 # drop_blank_paragraphs (drop (k + 4) s)"
proof -
  from assms have fm: "first_match blank_paragraph_pattern [] s False = Some (k + 4, [])"
    by (simp add: fm_blank)
  then have "sub_from blank_paragraph_pattern [Text [10, 10]] [] s False =
      10 # 10 # sub_from blank_paragraph_pattern [Text [10, 10]] (rev (take (k + 4) s) @ []) (drop (k + 4) s) False"
    by (subst sub_from_step) auto
  then show ?thesis
    unfolding drop_blank_paragraphs_def
    by (simp only: irr_blank [of "_ @ _"])
qed

lemma drop_blank_hd: "\<exists>ys. drop_blank_paragraphs (x # xs) = x # ys"
proof (cases "blank_at (x # xs)")
  case True
  then obtain k where "prefix [10, 10] (x # xs)" "last_break (drop 2 (x # xs)) = Some k"
    by (auto simp: blank_at_def)
  from drop_blank_match [OF this] this(1) show ?thesis
    by (auto simp: prefix2)
next
  case False
  then show ?thesis
    by (simp add: drop_blank_copy)
qed

lemma drop_blank_prefix1: "prefix [a] (drop_blank_paragraphs s) \<Longrightarrow> prefix [a] s"
proof (cases s)
  case Nil
  assume "prefix [a] (drop_blank_paragraphs s)"
  with Nil show ?thesis by (simp add: drop_blank_Nil)
next
  case (Cons x xs)
  assume "prefix [a] (drop_blank_paragraphs s)"
  with Cons drop_blank_hd [of x xs] show ?thesis
    by auto
qed

lemma drop_blank_prefix2:
  assumes "prefix [10, 10] (drop_blank_paragraphs s)"
  shows "prefix [10, 10] s"
proof (cases s)
  case Nil
  with assms show ?thesis by (simp add: drop_blank_Nil)
next
  case (Cons x xs)
  show ?thesis
  proof (cases "blank_at (x # xs)")
    case True
    with Cons show ?thesis by (simp add: blank_at_def)
  next
    case False
    from assms have "prefix [10, 10] (x # drop_blank_paragraphs xs)"
      unfolding Cons drop_blank_copy [OF False] .
    then have x: "x = 10" and "prefix [10] (drop_blank_paragraphs xs)"
      by (auto simp: prefix_def)
    then have "prefix [10] xs"
      by (simp add: drop_blank_prefix1)
    with x Cons show ?thesis
      by (auto simp: prefix_def)
  qed
qed

lemma last_break_None_not_blank: "last_break u = None \<Longrightarrow> \<not> blank_at u"
proof
  assume n: "last_break u = None" and "blank_at u"
  then obtain v where u: "u = 10 # 10 # v" and "last_break v \<noteq> None"
    by (auto simp: blank_at_def prefix_def)
  with n show False
    by (auto simp: isspace_10 split: option.splits)
qed

lemma drop_blank_last_break:
  "last_break u = None \<Longrightarrow> last_break (drop_blank_paragraphs u) = None"
proof (induction u)
  case Nil
  show ?case by (simp add: drop_blank_Nil)
next
  case (Cons x u)
  from Cons.prems have nb: "\<not> blank_at (x # u)"
    by (rule last_break_None_not_blank)
  show ?case
  proof (cases "isspace x")
    case False
    then show ?thesis
      by (simp add: drop_blank_copy [OF nb])
  next
    case True
    with Cons.prems have n: "last_break u = None" and p: "\<not> prefix [10, 10] (x # u)"
      by (auto split: option.splits if_splits)
    have "\<not> prefix [10, 10] (x # drop_blank_paragraphs u)"
    proof
      assume "prefix [10, 10] (x # drop_blank_paragraphs u)"
      then have x: "x = 10" and "prefix [10] (drop_blank_paragraphs u)"
        by (auto simp: prefix_def)
      then have "prefix [10] u"
        by (simp add: drop_blank_prefix1)
      with x p show False
        by (auto simp: prefix_def)
    qed
    with Cons.IH [OF n] True show ?thesis
      by (simp add: drop_blank_copy [OF nb])
  qed
qed

subsection \<open>Blank paragraphs: the result\<close>

lemma not_blank_at_Cons10: "last_break ys = None \<Longrightarrow> \<not> blank_at (10 # ys)"
proof
  assume n: "last_break ys = None" and "blank_at (10 # ys)"
  then obtain zs where "ys = 10 # zs" and "last_break zs \<noteq> None"
    by (auto simp: blank_at_def prefix_def)
  with n show False
    by (auto simp: isspace_10 split: option.splits)
qed

lemma drop_blank_no_blank: "suffix t (drop_blank_paragraphs s) \<Longrightarrow> \<not> blank_at t"
proof (induction "length s" arbitrary: s t rule: less_induct)
  case less
  show ?case
  proof (cases s)
    case Nil
    with less.prems have "t = []"
      by (simp add: drop_blank_Nil)
    then show ?thesis
      by (simp add: blank_at_def)
  next
    case (Cons x xs)
    show ?thesis
    proof (cases "blank_at (x # xs)")
      case True
      then obtain k where p: "prefix [10, 10] s" and k: "last_break (drop 2 s) = Some k"
        unfolding Cons by (auto simp: blank_at_def)
      let ?u = "drop (k + 4) s"
      have "k + 2 + 2 = k + 4" by simp
      then have u: "?u = drop (k + 2) (drop 2 s)"
        by (simp only: drop_drop)
      from last_break_Some [OF k] have n: "last_break ?u = None" and np: "\<not> prefix [10] ?u"
        unfolding u by simp_all
      have len: "length ?u < length s"
        using Cons by simp
      from less.prems have "suffix t (10 # 10 # drop_blank_paragraphs ?u)"
        unfolding drop_blank_match [OF p k] .
      then consider "t = 10 # 10 # drop_blank_paragraphs ?u" | "t = 10 # drop_blank_paragraphs ?u"
        | "suffix t (drop_blank_paragraphs ?u)"
        by (auto simp: suffix_Cons)
      then show ?thesis
      proof cases
        case 1
        with drop_blank_last_break [OF n] show ?thesis
          by (simp add: blank_at_def)
      next
        case 2
        from np have "\<not> prefix [10] (drop_blank_paragraphs ?u)"
          using drop_blank_prefix1 by blast
        with 2 show ?thesis
          by (auto simp: blank_at_def prefix_def)
      next
        case 3
        with less.hyps [OF len] show ?thesis .
      qed
    next
      case False
      from less.prems have "suffix t (x # drop_blank_paragraphs xs)"
        unfolding Cons drop_blank_copy [OF False] .
      then consider "t = x # drop_blank_paragraphs xs" | "suffix t (drop_blank_paragraphs xs)"
        by (auto simp: suffix_Cons)
      then show ?thesis
      proof cases
        case 2
        with less.hyps [of xs t] Cons show ?thesis by simp
      next
        case 1
        show ?thesis
        proof
          assume "blank_at t"
          then have b: "blank_at (x # drop_blank_paragraphs xs)"
            using 1 by simp
          then have x: "x = 10" and "prefix [10] (drop_blank_paragraphs xs)"
            by (auto simp: blank_at_def prefix_def)
          then have "prefix [10] xs"
            by (simp add: drop_blank_prefix1)
          then obtain ys where xs: "xs = 10 # ys"
            by (auto simp: prefix_def)
          from False x xs have n: "last_break ys = None"
            by (simp add: blank_at_def)
          then have "\<not> blank_at (10 # ys)"
            by (rule not_blank_at_Cons10)
          then have "drop_blank_paragraphs (10 # ys) = 10 # drop_blank_paragraphs ys"
            by (rule drop_blank_copy)
          with b x xs have "last_break (drop_blank_paragraphs ys) \<noteq> None"
            by (simp add: blank_at_def)
          with drop_blank_last_break [OF n] show False
            by simp
        qed
      qed
    qed
  qed
qed

lemma drop_blank_no_triple:
  "\<not> sublist [10, 10, 10] s \<Longrightarrow> \<not> sublist [10, 10, 10] (drop_blank_paragraphs s)"
proof (induction "length s" arbitrary: s rule: less_induct)
  case less
  show ?case
  proof (cases s)
    case Nil
    then show ?thesis by (simp add: drop_blank_Nil)
  next
    case (Cons x xs)
    show ?thesis
    proof (cases "blank_at (x # xs)")
      case True
      then obtain k where p: "prefix [10, 10] s" and k: "last_break (drop 2 s) = Some k"
        unfolding Cons by (auto simp: blank_at_def)
      let ?u = "drop (k + 4) s"
      have "k + 2 + 2 = k + 4" by simp
      then have u: "?u = drop (k + 2) (drop 2 s)"
        by (simp only: drop_drop)
      from last_break_Some [OF k] have np: "\<not> prefix [10] ?u"
        unfolding u by simp
      then have np': "\<not> prefix [10] (drop_blank_paragraphs ?u)"
        using drop_blank_prefix1 by blast
      have len: "length ?u < length s"
        using Cons by simp
      have "suffix ?u s"
        by (rule suffix_drop)
      with less.prems have "\<not> sublist [10, 10, 10] ?u"
        using sublist_suffix_trans by blast
      with less.hyps [OF len] have ih: "\<not> sublist [10, 10, 10] (drop_blank_paragraphs ?u)" .
      from np' have "\<not> prefix [10, 10, 10] (10 # 10 # drop_blank_paragraphs ?u)"
        and "\<not> prefix [10, 10, 10] (10 # drop_blank_paragraphs ?u)"
        by (auto simp: prefix_def)
      with ih show ?thesis
        unfolding drop_blank_match [OF p k]
        by (simp only: sublist_Cons_right simp_thms)
    next
      case False
      from less.prems Cons have t: "\<not> sublist [10, 10, 10] xs"
        and q: "\<not> prefix [10, 10, 10] (x # xs)"
        by (simp_all add: sublist_Cons_right)
      have "\<not> prefix [10, 10, 10] (x # drop_blank_paragraphs xs)"
      proof
        assume "prefix [10, 10, 10] (x # drop_blank_paragraphs xs)"
        then have x: "x = 10" and "prefix [10, 10] (drop_blank_paragraphs xs)"
          by (auto simp: prefix_def)
        then have "prefix [10, 10] xs"
          by (simp add: drop_blank_prefix2)
        with x q show False
          by (auto simp: prefix_def)
      qed
      moreover have "\<not> sublist [10, 10, 10] (drop_blank_paragraphs xs)"
        using less.hyps [of xs] t Cons by simp
      ultimately show ?thesis
        unfolding Cons drop_blank_copy [OF False]
        by (simp only: sublist_Cons_right simp_thms)
    qed
  qed
qed

lemma drop_blank_no_double:
  "\<not> sublist [32, 32] s \<Longrightarrow> \<not> sublist [32, 32] (drop_blank_paragraphs s)"
proof (induction "length s" arbitrary: s rule: less_induct)
  case less
  show ?case
  proof (cases s)
    case Nil
    then show ?thesis by (simp add: drop_blank_Nil)
  next
    case (Cons x xs)
    show ?thesis
    proof (cases "blank_at (x # xs)")
      case True
      then obtain k where p: "prefix [10, 10] s" and k: "last_break (drop 2 s) = Some k"
        unfolding Cons by (auto simp: blank_at_def)
      let ?u = "drop (k + 4) s"
      have len: "length ?u < length s"
        using Cons by simp
      have "suffix ?u s"
        by (rule suffix_drop)
      with less.prems have "\<not> sublist [32, 32] ?u"
        using sublist_suffix_trans by blast
      with less.hyps [OF len] have ih: "\<not> sublist [32, 32] (drop_blank_paragraphs ?u)" .
      have "\<not> prefix [32, 32] (10 # 10 # drop_blank_paragraphs ?u)"
        and "\<not> prefix [32, 32] (10 # drop_blank_paragraphs ?u)"
        by (auto simp: prefix_def)
      with ih show ?thesis
        unfolding drop_blank_match [OF p k]
        by (simp only: sublist_Cons_right simp_thms)
    next
      case False
      from less.prems Cons have t: "\<not> sublist [32, 32] xs"
        and q: "\<not> prefix [32, 32] (x # xs)"
        by (simp_all add: sublist_Cons_right)
      have "\<not> prefix [32, 32] (x # drop_blank_paragraphs xs)"
      proof
        assume "prefix [32, 32] (x # drop_blank_paragraphs xs)"
        then have x: "x = 32" and "prefix [32] (drop_blank_paragraphs xs)"
          by (auto simp: prefix_def)
        then have "prefix [32] xs"
          by (simp add: drop_blank_prefix1)
        with x q show False
          by (auto simp: prefix_def)
      qed
      moreover have "\<not> sublist [32, 32] (drop_blank_paragraphs xs)"
        using less.hyps [of xs] t Cons by simp
      ultimately show ?thesis
        unfolding Cons drop_blank_copy [OF False]
        by (simp only: sublist_Cons_right simp_thms)
    qed
  qed
qed

lemma drop_blank_id: "(\<And>t. suffix t s \<Longrightarrow> \<not> blank_at t) \<Longrightarrow> drop_blank_paragraphs s = s"
proof (induction s)
  case Nil
  show ?case by (simp add: drop_blank_Nil)
next
  case (Cons x xs)
  have "\<not> blank_at (x # xs)"
    using Cons.prems [of "x # xs"] by simp
  moreover have "drop_blank_paragraphs xs = xs"
    using Cons.IH Cons.prems by (simp add: suffix_Cons)
  ultimately show ?case
    by (simp add: drop_blank_copy)
qed

lemma no_blank_sublist:
  "(\<nexists>w. list_all isspace w \<and> sublist ([10, 10] @ w @ [10, 10]) s) \<longleftrightarrow>
     (\<forall>t. suffix t s \<longrightarrow> \<not> blank_at t)"
  unfolding blank_at_iff sublist_altdef' by blast

subsection \<open>Stripping\<close>

lemma strip_sublist: "sublist (strip s) s"
proof -
  let ?d = "dropWhile isspace s"
  have "rev ?d = takeWhile isspace (rev ?d) @ dropWhile isspace (rev ?d)"
    by simp
  then have "?d = rev (dropWhile isspace (rev ?d)) @ rev (takeWhile isspace (rev ?d))"
    by (metis rev_append rev_rev_ident)
  then have "prefix (strip s) ?d"
    unfolding strip_def by (metis prefixI)
  moreover have "suffix ?d s"
    by (rule suffix_dropWhile)
  ultimately show ?thesis
    unfolding sublist_altdef' by blast
qed

lemma strip_ends: "strip s = [] \<or> (\<not> isspace (hd (strip s)) \<and> \<not> isspace (last (strip s)))"
proof (cases "strip s = []")
  case True
  then show ?thesis by simp
next
  case False
  let ?d = "dropWhile isspace s"
  let ?e = "dropWhile isspace (rev ?d)"
  from False have e: "?e \<noteq> []"
    by (simp add: strip_def)
  have d: "?d \<noteq> []"
  proof
    assume "?d = []"
    then have "?e = []" by (simp only: rev.simps dropWhile.simps)
    with e show False by simp
  qed
  from e have 1: "\<not> isspace (hd ?e)"
    by (rule hd_dropWhile)
  from d have 2: "\<not> isspace (hd ?d)"
    by (rule hd_dropWhile)
  have "rev ?d = takeWhile isspace (rev ?d) @ ?e"
    by simp
  with e have "last (rev ?d) = last ?e"
    by (metis last_appendR)
  with d have 3: "last ?e = hd ?d"
    by (simp add: last_rev)
  from e have "hd (strip s) = last ?e" and "last (strip s) = hd ?e"
    by (simp_all add: strip_def hd_rev last_rev)
  with 1 2 3 show ?thesis
    by simp
qed

lemma strip_id: "s = [] \<or> (\<not> isspace (hd s) \<and> \<not> isspace (last s)) \<Longrightarrow> strip s = s"
proof (cases s)
  case Nil
  then show ?thesis by (simp add: strip_def)
next
  case (Cons x xs)
  assume "s = [] \<or> (\<not> isspace (hd s) \<and> \<not> isspace (last s))"
  with Cons have h: "\<not> isspace x" and l: "\<not> isspace (last s)"
    by simp_all
  from h Cons have d: "dropWhile isspace s = s"
    by simp
  from Cons have "rev s \<noteq> []" by simp
  moreover from Cons l have "\<not> isspace (hd (rev s))"
    by (metis hd_rev)
  ultimately have "dropWhile isspace (rev s) = rev s"
    by (cases "rev s") auto
  with d show ?thesis
    by (simp add: strip_def)
qed

lemma strip_idem: "strip (strip s) = strip s"
  by (rule strip_id) (rule strip_ends)

subsection \<open>Superscript digits\<close>

lemma replace_char_delete: "replace_char d [] s = filter (\<lambda>c. c \<noteq> d) s"
  by (induction s) (auto simp: replace_char_def)

lemma fold_delete_set: "set (fold (\<lambda>d t. replace_char d [] t) ds s) = set s - set ds"
  by (induction ds arbitrary: s) (auto simp: replace_char_delete)

lemma fold_delete_id: "set s \<inter> set ds = {} \<Longrightarrow> fold (\<lambda>d t. replace_char d [] t) ds s = s"
proof (induction ds arbitrary: s)
  case Nil
  show ?case by simp
next
  case (Cons d ds)
  from Cons.prems have "d \<notin> set s" and r: "set s \<inter> set ds = {}"
    by auto
  then have "replace_char d [] s = s"
    by (auto simp: replace_char_delete filter_id_conv)
  with Cons.IH [OF r] show ?case
    by simp
qed

lemma remove_superscripts_set: "set (remove_superscripts s) = set s - set superscript_digits"
  by (simp only: remove_superscripts_def fold_delete_set)

lemma remove_superscripts_id:
  "set s \<inter> set superscript_digits = {} \<Longrightarrow> remove_superscripts s = s"
  by (simp only: remove_superscripts_def fold_delete_id)

subsection \<open>The shape of the result\<close>

lemma re_sub_spaces: "re_sub spaces_pattern [Text [32]] s = Inr (collapse_spaces s)"
  by (simp add: re_sub_no_refs collapse_spaces_def)

lemma re_sub_breaks: "re_sub breaks_pattern [Text [10, 10]] s = Inr (collapse_breaks s)"
  by (simp add: re_sub_no_refs collapse_breaks_def)

lemma re_sub_blank: "re_sub blank_paragraph_pattern [Text [10, 10]] s = Inr (drop_blank_paragraphs s)"
  by (simp add: re_sub_no_refs drop_blank_paragraphs_def)

lemma not_sublist_strip: "\<not> sublist p s \<Longrightarrow> \<not> sublist p (strip s)"
  using strip_sublist [of s] by (meson sublist_order.order_trans)

lemma tail_invariants:
  fixes t :: pystr
  defines "out \<equiv> strip (drop_blank_paragraphs (collapse_breaks (collapse_spaces t)))"
  shows "\<not> sublist [32, 32] out" and "\<not> sublist [10, 10, 10] out"
    and "\<nexists>w. list_all isspace w \<and> sublist ([10, 10] @ w @ [10, 10]) out"
    and "out = [] \<or> (\<not> isspace (hd out) \<and> \<not> isspace (last out))"
    and "set out \<subseteq> set t \<union> {32, 10}"
proof -
  let ?t7 = "collapse_spaces t"
  let ?t8 = "collapse_breaks ?t7"
  let ?t9 = "drop_blank_paragraphs ?t8"
  have "\<not> sublist [32, 32] ?t9"
    by (intro drop_blank_no_double collapse_breaks_no_double collapse_spaces_no_double)
  then show "\<not> sublist [32, 32] out"
    unfolding out_def by (rule not_sublist_strip)
  have "\<not> sublist [10, 10, 10] ?t9"
    by (intro drop_blank_no_triple collapse_breaks_no_triple)
  then show "\<not> sublist [10, 10, 10] out"
    unfolding out_def by (rule not_sublist_strip)
  have "\<nexists>w. list_all isspace w \<and> sublist ([10, 10] @ w @ [10, 10]) ?t9"
    unfolding no_blank_sublist using drop_blank_no_blank by blast
  then show "\<nexists>w. list_all isspace w \<and> sublist ([10, 10] @ w @ [10, 10]) out"
    unfolding out_def using strip_sublist [of ?t9] by (meson sublist_order.order_trans)
  show "out = [] \<or> (\<not> isspace (hd out) \<and> \<not> isspace (last out))"
    unfolding out_def by (rule strip_ends)
  have "set ?t7 \<subseteq> set t \<union> {32}"
    unfolding collapse_spaces_def using sub_from_chars [of spaces_pattern "[Text [32]]" "[]" t False]
    by simp
  moreover have "set ?t8 \<subseteq> set ?t7 \<union> {10}"
    unfolding collapse_breaks_def
    using sub_from_chars [of breaks_pattern "[Text [10, 10]]" "[]" _ False] by simp
  moreover have "set ?t9 \<subseteq> set ?t8 \<union> {10}"
    unfolding drop_blank_paragraphs_def
    using sub_from_chars [of blank_paragraph_pattern "[Text [10, 10]]" "[]" _ False] by simp
  moreover have "set out \<subseteq> set ?t9"
    unfolding out_def using strip_sublist [of ?t9] by (rule set_mono_sublist)
  ultimately show "set out \<subseteq> set t \<union> {32, 10}"
    by blast
qed

lemma head_chars:
  fixes s :: pystr
  defines "t \<equiv> sub_from marker_pattern marker_template []
       (sub_from suffix_digits_pattern [] []
         (sub_from citation_pattern [] []
           (sub_from amendment_pattern [] []
             (sub_from see_pattern [] [] (remove_superscripts s) False) False) False) False)
       False"
  shows "set t \<subseteq> (set s - set superscript_digits) \<union> {40, 41, 32}"
proof -
  let ?t1 = "remove_superscripts s"
  let ?t2 = "sub_from see_pattern [] [] ?t1 False"
  let ?t3 = "sub_from amendment_pattern [] [] ?t2 False"
  let ?t4 = "sub_from citation_pattern [] [] ?t3 False"
  let ?t5 = "sub_from suffix_digits_pattern [] [] ?t4 False"
  have "set ?t2 \<subseteq> set ?t1"
    using sub_from_chars [of see_pattern "[]" "[]" ?t1 False] by simp
  moreover have "set ?t3 \<subseteq> set ?t2"
    using sub_from_chars [of amendment_pattern "[]" "[]" ?t2 False] by simp
  moreover have "set ?t4 \<subseteq> set ?t3"
    using sub_from_chars [of citation_pattern "[]" "[]" ?t3 False] by simp
  moreover have "set ?t5 \<subseteq> set ?t4"
    using sub_from_chars [of suffix_digits_pattern "[]" "[]" ?t4 False] by simp
  moreover have "set t \<subseteq> set ?t5 \<union> {40, 41, 32}"
    unfolding t_def
    using sub_from_chars [of marker_pattern marker_template "[]" ?t5 False]
    by (auto simp: marker_template_def)
  ultimately show ?thesis
    unfolding remove_superscripts_set by blast
qed

lemma clean_text_props:
  "\<exists>out. clean_text s = Inr out
     \<and> set out \<inter> set superscript_digits = {}
     \<and> \<not> sublist [32, 32] out
     \<and> \<not> sublist [10, 10, 10] out
     \<and> (\<nexists>w. list_all isspace w \<and> sublist ([10, 10] @ w @ [10, 10]) out)
     \<and> (out = [] \<or> (\<not> isspace (hd out) \<and> \<not> isspace (last out)))"
proof -
  let ?t = "sub_from marker_pattern marker_template []
       (sub_from suffix_digits_pattern [] []
         (sub_from citation_pattern [] []
           (sub_from amendment_pattern [] []
             (sub_from see_pattern [] [] (remove_superscripts s) False) False) False) False)
       False"
  let ?out = "strip (drop_blank_paragraphs (collapse_breaks (collapse_spaces ?t)))"
  have c: "clean_text s = Inr ?out"
    by (rule clean_text_eq)
  have "set ?out \<subseteq> set ?t \<union> {32, 10}"
    by (rule tail_invariants(5))
  with head_chars [of s] have "set ?out \<subseteq> (set s - set superscript_digits) \<union> {40, 41, 32, 10}"
    by blast
  moreover have "{40, 41, 32, 10} \<inter> set superscript_digits = {}"
    by (simp add: superscript_digits_def)
  ultimately have "set ?out \<inter> set superscript_digits = {}"
    by blast
  with c tail_invariants(1-4) [of ?t] show ?thesis
    by blast
qed


section \<open>Claims about the normalizer\<close>


end
